theory Spec2Isabelle
  imports Main "HOL-Library.AList"
begin

section \<open>Text primitives used by the Extron MAV client\<close>

text \<open>
  The client (\<^verbatim>\<open>custom_components/extron_mav/extron_client.py\<close>) works on Python
  \<^verbatim>\<open>str\<close> values that come out of \<^verbatim>\<open>data.decode('ascii', errors='ignore')\<close>, so every
  response text is ASCII. A text is modelled as a \<^typ>\<open>string\<close>, one \<^typ>\<open>char\<close> per
  ASCII code point; a code point beyond ASCII (only possible in a configured password or
  in a literal of the documentation) stands as its UTF-8 bytes, each of them \<open>\<ge> 128\<close>.
\<close>

definition is_digit :: "char \<Rightarrow> bool" where
  \<comment> \<open>\<^verbatim>\<open>\d\<close> on ASCII text, and the digits accepted by \<^verbatim>\<open>int()\<close>.\<close>
  "is_digit c = (48 \<le> (of_char c :: nat) \<and> (of_char c :: nat) \<le> 57)"

definition digit_val :: "char \<Rightarrow> nat" where
  "digit_val c = of_char c - 48"

definition nat_of_digits :: "string \<Rightarrow> nat" where
  \<comment> \<open>The value of a non-empty run of decimal digits, leading zeros allowed.\<close>
  "nat_of_digits ds = foldl (\<lambda>a c. 10 * a + digit_val c) 0 ds"

definition str_isspace :: "char \<Rightarrow> bool" where
  \<comment> \<open>The ASCII characters for which \<^verbatim>\<open>str.isspace\<close> holds, the ones \<^verbatim>\<open>str.strip()\<close>
      removes: TAB, LF, VT, FF, CR, FS, GS, RS, US and space.\<close>
  "str_isspace c = ((of_char c :: nat) \<in> {9, 10, 11, 12, 13, 28, 29, 30, 31, 32})"

definition strip :: "string \<Rightarrow> string" where
  \<comment> \<open>\<^verbatim>\<open>str.strip()\<close> with no argument.\<close>
  "strip s = rev (dropWhile str_isspace (rev (dropWhile str_isspace s)))"

definition decode_ascii_ignore :: "string \<Rightarrow> string" where
  \<comment> \<open>\<^verbatim>\<open>bytes.decode('ascii', errors='ignore')\<close>: bytes outside ASCII are dropped.\<close>
  "decode_ascii_ignore bs = filter (\<lambda>b. (of_char b :: nat) < 128) bs"

definition startswith :: "string \<Rightarrow> string \<Rightarrow> bool" where
  \<comment> \<open>\<^verbatim>\<open>s.startswith(p)\<close>.\<close>
  "startswith s p = (take (length p) s = p)"

fun contains :: "string \<Rightarrow> string \<Rightarrow> bool" where
  \<comment> \<open>\<^verbatim>\<open>sub in s\<close> on strings: \<open>contains s sub\<close>.\<close>
  "contains [] sub = (sub = [])"
| "contains (c # cs) sub = (startswith (c # cs) sub \<or> contains cs sub)"

fun int_body :: "string \<Rightarrow> string option" where
  \<comment> \<open>The digit part of an \<^verbatim>\<open>int()\<close> literal in base 10: digits, with single underscores
      allowed between two digits. Returns the digits without the underscores.\<close>
  "int_body [] = None"
| "int_body [c] = (if is_digit c then Some [c] else None)"
| "int_body (c # d # cs) =
     (if \<not> is_digit c then None
      else if d = CHR ''_'' then map_option (Cons c) (int_body cs)
      else map_option (Cons c) (int_body (d # cs)))"

definition c_isspace :: "char \<Rightarrow> bool" where
  \<comment> \<open>The whitespace \<^verbatim>\<open>int()\<close> skips around an ASCII literal.\<close>
  "c_isspace c = ((of_char c :: nat) \<in> {9, 10, 11, 12, 13, 32})"

text \<open>
  Exceptions are values. \<open>TimeoutError\<close> is an instance of \<^verbatim>\<open>asyncio.TimeoutError\<close>, the
  only class the handlers of the transport tell apart; \<open>TransportError\<close> is any other
  exception of the stream library. The rest are raised by the client or by the interpreter
  on the client's own statements; \<open>ValueError\<close> is the one \<^verbatim>\<open>int()\<close> raises.
\<close>

datatype exn =
    TimeoutError
  | TransportError
  | NoReader
  | NotConnected
  | PasswordRequired
  | InvalidPassword
  | ConnectTimeout
  | ConnectFailed exn
  | UnicodeEncodeError
  | AttributeError
  | TypeError
  | ValueError

definition int_max_str_digits :: nat where
  \<comment> \<open>The interpreter's default limit on the number of digits \<^verbatim>\<open>int()\<close> converts
      (\<^verbatim>\<open>sys.int_info.default_max_str_digits\<close>); the repository does not change it.\<close>
  "int_max_str_digits = 4300"

definition int_of_digits :: "string \<Rightarrow> nat option" where
  \<comment> \<open>The conversion of a run of digits, underscores removed: beyond the limit on their
      number, leading zeros counted, \<^verbatim>\<open>int()\<close> raises \<^verbatim>\<open>ValueError\<close> (\<open>None\<close>).\<close>
  "int_of_digits ds =
     (if length ds > int_max_str_digits then None else Some (nat_of_digits ds))"

definition py_int :: "string \<Rightarrow> int option" where
  \<comment> \<open>\<^verbatim>\<open>int(s)\<close> for an ASCII \<^verbatim>\<open>str\<close>; \<open>None\<close> is \<^verbatim>\<open>ValueError\<close>. Surrounding whitespace
      is skipped, one sign is allowed, then comes the digit part, converted within the
      limit on the number of digits.\<close>
  "py_int s =
     (let t = rev (dropWhile c_isspace (rev (dropWhile c_isspace s)))
      in case t of
           [] \<Rightarrow> None
         | c # r \<Rightarrow>
             if c = CHR ''-'' then
               (case int_body r of
                  None \<Rightarrow> None
                | Some ds \<Rightarrow> map_option (\<lambda>n. - int n) (int_of_digits ds))
             else if c = CHR ''+'' then
               (case int_body r of
                  None \<Rightarrow> None
                | Some ds \<Rightarrow> map_option int (int_of_digits ds))
             else
               (case int_body t of
                  None \<Rightarrow> None
                | Some ds \<Rightarrow> map_option int (int_of_digits ds)))"

fun re_search_In :: "string \<Rightarrow> string option" where
  \<comment> \<open>\<^verbatim>\<open>re.search(r'In(\d+)', s, re.IGNORECASE)\<close>: group 1 of the leftmost match, the
      longest run of digits after the first \<^verbatim>\<open>in\<close> (either case) that a digit follows.\<close>
  "re_search_In (a # b # cs) =
     (if (a = CHR ''I'' \<or> a = CHR ''i'') \<and> (b = CHR ''N'' \<or> b = CHR ''n'')
         \<and> takeWhile is_digit cs \<noteq> []
      then Some (takeWhile is_digit cs)
      else re_search_In (b # cs))"
| "re_search_In _ = None"

definition tie_of_response :: "string \<Rightarrow> exn + int" where
  \<comment> \<open>Lines 181-195 of \<^verbatim>\<open>get_output_tie\<close>: the input number read off a response text.
      The conversion of the token's digits (line 183) is outside the \<^verbatim>\<open>try\<close>, so its
      \<^verbatim>\<open>ValueError\<close> is raised; the one of the whole text (line 190) is caught.\<close>
  "tie_of_response response =
     (case re_search_In response of
        Some ds \<Rightarrow>
          (case int_of_digits ds of
             Some input_num \<Rightarrow> Inr (int input_num)
           | None \<Rightarrow> Inl ValueError)
      | None \<Rightarrow>
          (case py_int (strip response) of
             Some input_num \<Rightarrow> Inr input_num
           | None \<Rightarrow> Inr 0))"

definition set_ack :: "string \<Rightarrow> bool" where
  \<comment> \<open>Line 208 of \<^verbatim>\<open>set_output_tie\<close>: \<^verbatim>\<open>"Out" in response and not response.startswith("E")\<close>.\<close>
  "set_ack response = (contains response ''Out'' \<and> \<not> startswith response ''E'')"

definition digit_char :: "nat \<Rightarrow> char" where
  \<comment> \<open>The character of a decimal digit \<open>d < 10\<close>.\<close>
  "digit_char d = ''0123456789'' ! d"

function str_nat :: "nat \<Rightarrow> string" where
  \<comment> \<open>The decimal digits of a natural number.\<close>
  "str_nat n = (if n < 10 then [digit_char n] else str_nat (n div 10) @ [digit_char (n mod 10)])"
  by pat_completeness auto
termination
  by (relation "measure id") auto

declare str_nat.simps [simp del]

definition str_int :: "int \<Rightarrow> string" where
  \<comment> \<open>\<^verbatim>\<open>f"{i}"\<close> for an \<^verbatim>\<open>int\<close>. The numbers formatted are output and input numbers of
      the matrix, far below the size at which the interpreter refuses the conversion.\<close>
  "str_int i = (if i < 0 then CHR ''-'' # str_nat (nat (- i)) else str_nat (nat i))"


definition encode_ascii :: "string \<Rightarrow> string option" where
  \<comment> \<open>\<^verbatim>\<open>str.encode('ascii')\<close>; \<open>None\<close> is \<^verbatim>\<open>UnicodeEncodeError\<close>.\<close>
  "encode_ascii t = (if list_all (\<lambda>c. (of_char c :: nat) < 128) t then Some t else None)"

definition crlf :: string where
  "crlf = [CHR 0x0D, CHR 0x0A]"

section \<open>The client and its transport\<close>

datatype open_result = OpenOk | OpenTimeout | OpenError

datatype read_result = ReadData string | ReadTimeout | ReadError

datatype write_result = WriteOk | WriteTimeout | WriteError

text \<open>
  The fields of \<^verbatim>\<open>ExtronClient\<close> that the code reads, together with the world it talks to:
  what the \<open>k\<close>-th \<^verbatim>\<open>open_connection\<close>, the \<open>k\<close>-th \<^verbatim>\<open>readuntil\<close> and the \<open>k\<close>-th
  \<^verbatim>\<open>write\<close>/\<^verbatim>\<open>drain\<close> will do, how many opens and reads have happened, and \<open>wire\<close>,
  every byte string handed to \<^verbatim>\<open>writer.write\<close> so far, in order (its length is the
  number of writes so far). A stream handle is the number of the \<^verbatim>\<open>open_connection\<close>
  call that made it. The lock, the timeouts' durations, \<open>host\<close>, \<open>port\<close> and the log are
  not modelled: calls run one after the other.
\<close>

record client =
  password :: "string option"
  reader :: "nat option"
  writer :: "nat option"
  connected :: bool
  open_results :: "nat \<Rightarrow> open_result"
  read_results :: "nat \<Rightarrow> read_result"
  write_results :: "nat \<Rightarrow> write_result"
  opens :: nat
  reads :: nat
  wire :: "string list"

definition is_connected :: "client \<Rightarrow> bool" where
  "is_connected s = (connected s \<and> writer s \<noteq> None)"

definition read_until_prompt :: "client \<Rightarrow> (exn + string) \<times> client" where
  "read_until_prompt s =
     (if reader s = None then (Inl NoReader, s\<lparr>connected := False\<rparr>)
      else case read_results s (reads s) of
             ReadData bs \<Rightarrow> (Inr (strip (decode_ascii_ignore bs)), s\<lparr>reads := Suc (reads s)\<rparr>)
           | ReadTimeout \<Rightarrow> (Inr [], s\<lparr>reads := Suc (reads s)\<rparr>)
           | ReadError \<Rightarrow> (Inl TransportError, s\<lparr>reads := Suc (reads s), connected := False\<rparr>))"

definition looks_like_timestamp :: "string \<Rightarrow> bool" where
  \<comment> \<open>The text part of the loop condition of \<^verbatim>\<open>_read_response\<close>:
      \<^verbatim>\<open>response and "," in response and "202" in response\<close>.\<close>
  "looks_like_timestamp response =
     (response \<noteq> [] \<and> contains response '','' \<and> contains response ''202'')"

function read_loop :: "string \<Rightarrow> nat \<Rightarrow> client \<Rightarrow> (exn + string) \<times> client" where
  \<comment> \<open>The \<^verbatim>\<open>while\<close> loop of \<^verbatim>\<open>_read_response\<close>.\<close>
  "read_loop response retry_count s =
     (if looks_like_timestamp response \<and> retry_count < 3
      then (case read_until_prompt s of
              (Inl e, s') \<Rightarrow> (Inl e, s')
            | (Inr response', s') \<Rightarrow> read_loop response' (retry_count + 1) s')
      else (Inr response, s))"
  by pat_completeness auto
termination
  by (relation "measure (\<lambda>(response, retry_count, s). 3 - retry_count)") auto

declare read_loop.simps [simp del]

definition read_response :: "client \<Rightarrow> (exn + string) \<times> client" where
  "read_response s =
     (case read_until_prompt s of
        (Inl e, s') \<Rightarrow> (Inl e, s')
      | (Inr response, s') \<Rightarrow> read_loop response 0 s')"

definition write_drain :: "string \<Rightarrow> client \<Rightarrow> (exn + unit) \<times> client" where
  \<comment> \<open>\<^verbatim>\<open>self._writer.write(data); await self._writer.drain()\<close> on a present writer.\<close>
  "write_drain data s =
     (let s' = s\<lparr>wire := wire s @ [data]\<rparr>
      in case write_results s (length (wire s)) of
           WriteOk \<Rightarrow> (Inr (), s')
         | WriteTimeout \<Rightarrow> (Inl TimeoutError, s')
         | WriteError \<Rightarrow> (Inl TransportError, s'))"

definition send_command_raw :: "string \<Rightarrow> client \<Rightarrow> (exn + unit) \<times> client" where
  "send_command_raw command s =
     (if writer s = None then (Inl NotConnected, s)
      else case encode_ascii (command @ crlf) of
             None \<Rightarrow> (Inl UnicodeEncodeError, s)
           | Some data \<Rightarrow> write_drain data s)"

definition connect_try :: "client \<Rightarrow> (exn + unit) \<times> client" where
  \<comment> \<open>The \<^verbatim>\<open>try\<close> block of \<^verbatim>\<open>connect\<close>.\<close>
  "connect_try s =
     (case open_results s (opens s) of
        OpenTimeout \<Rightarrow> (Inl TimeoutError, s\<lparr>opens := Suc (opens s)\<rparr>)
      | OpenError \<Rightarrow> (Inl TransportError, s\<lparr>opens := Suc (opens s)\<rparr>)
      | OpenOk \<Rightarrow>
          (case read_until_prompt
                  (s\<lparr>opens := Suc (opens s), reader := Some (opens s), writer := Some (opens s)\<rparr>) of
             (Inl e, s2) \<Rightarrow> (Inl e, s2)
           | (Inr banner, s2) \<Rightarrow>
               (case read_response s2 of
                  (Inl e, s3) \<Rightarrow> (Inl e, s3)
                | (Inr response, s3) \<Rightarrow>
                    if contains response ''Password:'' then
                      (case password s3 of
                         None \<Rightarrow> (Inl PasswordRequired, s3)
                       | Some pw \<Rightarrow>
                           if pw = [] then (Inl PasswordRequired, s3)
                           else
                             (case send_command_raw pw s3 of
                                (Inl e, s4) \<Rightarrow> (Inl e, s4)
                              | (Inr u, s4) \<Rightarrow>
                                  (case read_response s4 of
                                     (Inl e, s5) \<Rightarrow> (Inl e, s5)
                                   | (Inr login_response, s5) \<Rightarrow>
                                       if \<not> contains login_response ''Login''
                                       then (Inl InvalidPassword, s5)
                                       else (Inr (), s5\<lparr>connected := True\<rparr>))))
                    else (Inr (), s3\<lparr>connected := True\<rparr>))))"

definition connect :: "client \<Rightarrow> (exn + unit) \<times> client" where
  \<comment> \<open>The two handlers: \<^verbatim>\<open>except asyncio.TimeoutError\<close> re-raises and touches nothing,
      \<^verbatim>\<open>except Exception\<close> clears the flag and re-raises.\<close>
  "connect s =
     (case connect_try s of
        (Inr u, s') \<Rightarrow> (Inr u, s')
      | (Inl e, s') \<Rightarrow>
          if e = TimeoutError then (Inl ConnectTimeout, s')
          else (Inl (ConnectFailed e), s'\<lparr>connected := False\<rparr>))"

definition ensure_connected :: "client \<Rightarrow> (exn + unit) \<times> client" where
  "ensure_connected s = (if \<not> is_connected s then connect s else (Inr (), s))"

definition send_command_try :: "string \<Rightarrow> bool \<Rightarrow> client \<Rightarrow> (exn + string option) \<times> client" where
  \<comment> \<open>The \<^verbatim>\<open>try\<close> block of \<^verbatim>\<open>_send_command\<close>; \<open>Inr None\<close> is the return value \<^verbatim>\<open>None\<close>.\<close>
  "send_command_try command expect_response s =
     (case writer s of
        None \<Rightarrow> (Inl AttributeError, s)
      | Some w \<Rightarrow>
          (case encode_ascii (command @ crlf) of
             None \<Rightarrow> (Inl UnicodeEncodeError, s)
           | Some data \<Rightarrow>
               (case write_drain data s of
                  (Inl e, s1) \<Rightarrow> (Inl e, s1)
                | (Inr u, s1) \<Rightarrow>
                    if expect_response then
                      (case read_response s1 of
                         (Inl e, s2) \<Rightarrow> (Inl e, s2)
                       | (Inr response, s2) \<Rightarrow> (Inr (Some response), s2))
                    else (Inr None, s1))))"

definition send_command :: "string \<Rightarrow> bool \<Rightarrow> client \<Rightarrow> (exn + string option) \<times> client" where
  "send_command command expect_response s =
     (case ensure_connected s of
        (Inl e, s1) \<Rightarrow> (Inl e, s1)
      | (Inr u, s1) \<Rightarrow>
          (case send_command_try command expect_response s1 of
             (Inl e, s2) \<Rightarrow> (Inl e, s2\<lparr>connected := False\<rparr>)
           | (Inr r, s2) \<Rightarrow> (Inr r, s2)))"

definition get_output_tie :: "int \<Rightarrow> client \<Rightarrow> (exn + int) \<times> client" where
  "get_output_tie output s =
     (case send_command (str_int output @ ''%'') True s of
        (Inl e, s1) \<Rightarrow> (Inl e, s1)
      | (Inr None, s1) \<Rightarrow> (Inl TypeError, s1)
      | (Inr (Some response), s1) \<Rightarrow>
          (case tie_of_response response of
             Inl e \<Rightarrow> (Inl e, s1)
           | Inr input_num \<Rightarrow> (Inr input_num, s1)))"

definition set_output_tie :: "int \<Rightarrow> int \<Rightarrow> client \<Rightarrow> (exn + bool) \<times> client" where
  "set_output_tie input_num output s =
     (if input_num = 0 then (Inr False, s)
      else case send_command (str_int input_num @ ''*'' @ str_int output @ ''!'') True s of
             (Inl e, s1) \<Rightarrow> (Inl e, s1)
           | (Inr None, s1) \<Rightarrow> (Inl TypeError, s1)
           | (Inr (Some response), s1) \<Rightarrow> (Inr (set_ack response), s1))"

fun ties_loop :: "int list \<Rightarrow> (int \<times> int) list \<Rightarrow> client \<Rightarrow> (int \<times> int) list \<times> client" where
  \<comment> \<open>The \<^verbatim>\<open>for\<close> loop of \<^verbatim>\<open>get_all_ties\<close> over the outputs still to query. The dict
      \<^verbatim>\<open>ties\<close> is an association list in insertion order; \<^verbatim>\<open>ties[k] = v\<close> is
      \<^const>\<open>AList.update\<close>.\<close>
  "ties_loop [] ties s = (ties, s)"
| "ties_loop (output # rest) ties s =
     (case get_output_tie output s of
        (Inr tied_input, s1) \<Rightarrow> ties_loop rest (AList.update output tied_input ties) s1
      | (Inl err, s1) \<Rightarrow> ties_loop rest (AList.update output 0 ties) s1)"

definition get_all_ties :: "int \<Rightarrow> client \<Rightarrow> (int \<times> int) list \<times> client" where
  \<comment> \<open>\<^verbatim>\<open>range(1, num_outputs + 1)\<close> is \<open>[1..num_outputs]\<close>. Every exception of the body is an
      \<^verbatim>\<open>Exception\<close> and is caught, so the function has no error result.\<close>
  "get_all_ties num_outputs s = ties_loop [1..num_outputs] [] s"

section \<open>Notions used in the statements\<close>

definition has_token :: "string \<Rightarrow> bool" where
  \<comment> \<open>The text holds an \<^verbatim>\<open>In<digits>\<close> token, in either case, somewhere.\<close>
  "has_token t = (\<exists>pre a b d rest. t = pre @ a # b # d # rest
      \<and> a \<in> {CHR ''I'', CHR ''i''} \<and> b \<in> {CHR ''N'', CHR ''n''} \<and> is_digit d)"

definition line_of :: "read_result \<Rightarrow> string" where
  \<comment> \<open>The text \<^verbatim>\<open>_read_until_prompt\<close> returns for a read that does not raise.\<close>
  "line_of r = (case r of ReadData bs \<Rightarrow> strip (decode_ascii_ignore bs) | ReadTimeout \<Rightarrow> [] | ReadError \<Rightarrow> [])"

definition spec_timestamp_noise :: "string \<Rightarrow> bool" where
  \<comment> \<open>The specification's wording of timestamp noise: a comma, and a three-digit token
      that begins with \<^verbatim>\<open>20\<close>.\<close>
  "spec_timestamp_noise line =
     (contains line '','' \<and> list_ex (\<lambda>d. contains line (''20'' @ [d])) ''0123456789'')"

subsection \<open>Example sessions\<close>

definition tied_client :: client where
  \<comment> \<open>A connected session whose device answers every command with a full tie line.\<close>
  "tied_client =
     \<lparr>password = None, reader = Some 0, writer = Some 0, connected = True,
      open_results = (\<lambda>k. OpenOk),
      read_results = (\<lambda>k. ReadData (''Out01 In05 All'' @ crlf)),
      write_results = (\<lambda>k. WriteOk),
      opens = 1, reads = 2, wire = []\<rparr>"

definition neg_reply_client :: client where
  \<comment> \<open>A connected session whose device answers with a signed bare number.\<close>
  "neg_reply_client =
     \<lparr>password = None, reader = Some 0, writer = Some 0, connected = True,
      open_results = (\<lambda>k. OpenOk),
      read_results = (\<lambda>k. ReadData (''-5'' @ crlf)),
      write_results = (\<lambda>k. WriteOk),
      opens = 1, reads = 2, wire = []\<rparr>"

definition room_201_client :: client where
  \<comment> \<open>A connected session whose next line holds a comma and the token \<^verbatim>\<open>201\<close>.\<close>
  "room_201_client =
     \<lparr>password = None, reader = Some 0, writer = Some 0, connected = True,
      open_results = (\<lambda>k. OpenOk),
      read_results = (\<lambda>k. if k = 0 then ReadData (''201, ready'' @ crlf)
                            else ReadData (''Out01 In05 All'' @ crlf)),
      write_results = (\<lambda>k. WriteOk),
      opens = 1, reads = 0, wire = []\<rparr>"

definition stamped_client :: client where
  \<comment> \<open>A connected session whose device sends nothing but timestamps.\<close>
  "stamped_client =
     \<lparr>password = None, reader = Some 0, writer = Some 0, connected = True,
      open_results = (\<lambda>k. OpenOk),
      read_results = (\<lambda>k. ReadData (''Mon, 05 Jan 2026 10:15:00'' @ crlf)),
      write_results = (\<lambda>k. WriteOk),
      opens = 1, reads = 0, wire = []\<rparr>"

definition prompting_client :: client where
  \<comment> \<open>A fresh client with no credential, in front of a device that asks for a password.\<close>
  "prompting_client =
     \<lparr>password = None, reader = None, writer = None, connected = False,
      open_results = (\<lambda>k. OpenOk),
      read_results = (\<lambda>k. if k = 0 then ReadData (''(c) Extron Electronics'' @ crlf)
                            else ReadData (''Password:'' @ crlf)),
      write_results = (\<lambda>k. WriteOk),
      opens = 0, reads = 0, wire = []\<rparr>"


definition flaky_client :: client where
  \<comment> \<open>A connected session whose next read fails; the transport then works again: the
      device sends its banner, no prompt, and answers with a tie line.\<close>
  "flaky_client =
     \<lparr>password = None, reader = Some 0, writer = Some 0, connected = True,
      open_results = (\<lambda>k. OpenOk),
      read_results = (\<lambda>k. if k = 0 then ReadError
                            else if k = 1 then ReadData (''(c) Extron Electronics'' @ crlf)
                            else if k = 2 then ReadTimeout
                            else ReadData (''Out01 In05 All'' @ crlf)),
      write_results = (\<lambda>k. WriteOk),
      opens = 1, reads = 0, wire = []\<rparr>"


definition long_token_client :: client where
  \<comment> \<open>A connected session whose device answers with a tie line of 4301 digits.\<close>
  "long_token_client =
     \<lparr>password = None, reader = Some 0, writer = Some 0, connected = True,
      open_results = (\<lambda>k. OpenOk),
      read_results = (\<lambda>k. ReadData (''Out01 In'' @ replicate 4301 (CHR ''7'') @ '' All'' @ crlf)),
      write_results = (\<lambda>k. WriteOk),
      opens = 1, reads = 2, wire = []\<rparr>"

section \<open>Substring search, the tie pattern and trimming\<close>

lemma startswith_iff: "startswith s p \<longleftrightarrow> (\<exists>post. s = p @ post)"
  unfolding startswith_def by (metis append_eq_conv_conj append_take_drop_id)

lemma contains_iff: "contains s sub \<longleftrightarrow> (\<exists>pre post. s = pre @ sub @ post)"
proof (induction s)
  case Nil
  show ?case by auto
next
  case (Cons c cs)
  have "(\<exists>pre post. c # cs = pre @ sub @ post) \<longleftrightarrow>
        (\<exists>post. c # cs = sub @ post) \<or> (\<exists>pre post. cs = pre @ sub @ post)"
  proof
    assume "\<exists>pre post. c # cs = pre @ sub @ post"
    then obtain pre post where e: "c # cs = pre @ sub @ post" by blast
    show "(\<exists>post. c # cs = sub @ post) \<or> (\<exists>pre post. cs = pre @ sub @ post)"
    proof (cases pre)
      case Nil
      with e show ?thesis by auto
    next
      case (Cons p pre')
      with e have "cs = pre' @ sub @ post" by simp
      then show ?thesis by blast
    qed
  next
    assume "(\<exists>post. c # cs = sub @ post) \<or> (\<exists>pre post. cs = pre @ sub @ post)"
    then show "\<exists>pre post. c # cs = pre @ sub @ post"
    proof
      assume "\<exists>post. c # cs = sub @ post"
      then obtain post where "c # cs = [] @ sub @ post" by auto
      then show ?thesis by blast
    next
      assume "\<exists>pre post. cs = pre @ sub @ post"
      then obtain pre post where "c # cs = (c # pre) @ sub @ post" by auto
      then show ?thesis by blast
    qed
  qed
  with Cons show ?case by (simp add: startswith_iff)
qed

lemma has_token_Cons: "has_token cs \<Longrightarrow> has_token (c # cs)"
  unfolding has_token_def
proof -
  assume "\<exists>pre a b d rest. cs = pre @ a # b # d # rest
      \<and> a \<in> {CHR ''I'', CHR ''i''} \<and> b \<in> {CHR ''N'', CHR ''n''} \<and> is_digit d"
  then obtain pre a b d rest where "cs = pre @ a # b # d # rest"
     and h: "a \<in> {CHR ''I'', CHR ''i''}" "b \<in> {CHR ''N'', CHR ''n''}" "is_digit d" by blast
  then have "c # cs = (c # pre) @ a # b # d # rest" by simp
  with h show "\<exists>pre a b d rest. c # cs = pre @ a # b # d # rest
      \<and> a \<in> {CHR ''I'', CHR ''i''} \<and> b \<in> {CHR ''N'', CHR ''n''} \<and> is_digit d" by blast
qed

lemma has_token_front:
  "a \<in> {CHR ''I'', CHR ''i''} \<Longrightarrow> b \<in> {CHR ''N'', CHR ''n''} \<Longrightarrow> is_digit d \<Longrightarrow> has_token (a # b # d # rest)"
  unfolding has_token_def by (metis append_Nil)

lemma has_token_cases:
  "has_token (a # cs) \<Longrightarrow>
     (\<exists>b d rest. cs = b # d # rest \<and> a \<in> {CHR ''I'', CHR ''i''} \<and> b \<in> {CHR ''N'', CHR ''n''} \<and> is_digit d)
     \<or> has_token cs"
  unfolding has_token_def
  apply clarify
  subgoal for pre a' b d rest
    apply (cases pre)
     apply simp
    apply simp
    apply blast
    done
  done

lemma takeWhile_digit_ne: "takeWhile is_digit cs \<noteq> [] \<longleftrightarrow> (\<exists>d rest. cs = d # rest \<and> is_digit d)"
  by (cases cs) auto

lemma re_search_In_None_iff: "re_search_In t = None \<longleftrightarrow> \<not> has_token t"
proof (induction t rule: re_search_In.induct)
  case (1 a b cs)
  show ?case
  proof (cases "(a = CHR ''I'' \<or> a = CHR ''i'') \<and> (b = CHR ''N'' \<or> b = CHR ''n'')
         \<and> takeWhile is_digit cs \<noteq> []")
    case True
    then have "has_token (a # b # cs)"
      using has_token_front[of a b] by (auto simp: takeWhile_digit_ne)
    with True show ?thesis by simp
  next
    case False
    then have "re_search_In (a # b # cs) = re_search_In (b # cs)" by auto
    moreover have "has_token (a # b # cs) \<longleftrightarrow> has_token (b # cs)"
      using False has_token_cases[of a "b # cs"] has_token_Cons[of "b # cs" a]
      by (auto simp: takeWhile_digit_ne)
    ultimately show ?thesis using 1 False by auto
  qed
qed (simp_all add: has_token_def)

lemma re_search_In_leftmost:
  assumes "a \<in> {CHR ''I'', CHR ''i''}" "b \<in> {CHR ''N'', CHR ''n''}"
      "ds \<noteq> []" "\<forall>c \<in> set ds. is_digit c" "rest = [] \<or> \<not> is_digit (hd rest)"
  shows "\<not> has_token pre \<Longrightarrow> re_search_In (pre @ a # b # ds @ rest) = Some ds"
proof (induction pre)
  case Nil
  have "takeWhile is_digit (ds @ rest) = ds"
    using assms(4,5) by (cases rest) (auto simp: takeWhile_append2 takeWhile_eq_all_conv)
  with assms show ?case by auto
next
  case (Cons p pre)
  have nt: "\<not> has_token pre" using Cons.prems has_token_Cons by blast
  have nd: "\<not> is_digit a" "\<not> is_digit b" using assms(1,2) by (auto simp: is_digit_def)
  obtain q cs where qcs: "pre @ a # b # ds @ rest = q # cs" by (cases pre) auto
  have "\<not> ((p = CHR ''I'' \<or> p = CHR ''i'') \<and> (q = CHR ''N'' \<or> q = CHR ''n'')
         \<and> takeWhile is_digit cs \<noteq> [])"
  proof
    assume h: "(p = CHR ''I'' \<or> p = CHR ''i'') \<and> (q = CHR ''N'' \<or> q = CHR ''n'')
         \<and> takeWhile is_digit cs \<noteq> []"
    then obtain d r where cs: "cs = d # r" "is_digit d" by (auto simp: takeWhile_digit_ne)
    show False
    proof (cases pre)
      case Nil
      with qcs have "q = a" by simp
      with h assms(1) show False by auto
    next
      case (Cons q' pre')
      note c1 = this
      show False
      proof (cases pre')
        case Nil
        with c1 qcs cs have "d = a" by simp
        with cs nd show False by simp
      next
        case (Cons d' pre'')
        with c1 qcs cs have "p # pre = p # q # d # pre''" by simp
        then have "has_token (p # pre)" using has_token_front[of p q d pre''] h cs by auto
        with Cons.prems show False by simp
      qed
    qed
  qed
  then have "re_search_In (p # q # cs) = re_search_In (q # cs)" by auto
  with qcs Cons.IH[OF nt] show ?case by simp
qed

lemma re_search_In_Some:
  "re_search_In t = Some ds \<Longrightarrow>
     \<exists>pre a b rest. t = pre @ a # b # ds @ rest
       \<and> a \<in> {CHR ''I'', CHR ''i''} \<and> b \<in> {CHR ''N'', CHR ''n''}
       \<and> ds \<noteq> [] \<and> (\<forall>c \<in> set ds. is_digit c)
       \<and> (rest = [] \<or> \<not> is_digit (hd rest)) \<and> \<not> has_token pre"
proof (induction t rule: re_search_In.induct)
  case (1 a b cs)
  show ?case
  proof (cases "(a = CHR ''I'' \<or> a = CHR ''i'') \<and> (b = CHR ''N'' \<or> b = CHR ''n'')
         \<and> takeWhile is_digit cs \<noteq> []")
    case True
    with 1(2) have ds: "ds = takeWhile is_digit cs" by auto
    have e: "a # b # cs = [] @ a # b # ds @ dropWhile is_digit cs" by (simp add: ds)
    have r: "dropWhile is_digit cs = [] \<or> \<not> is_digit (hd (dropWhile is_digit cs))"
      using hd_dropWhile[of is_digit cs] by blast
    have d: "\<forall>c \<in> set ds. is_digit c" unfolding ds by (meson set_takeWhileD)
    have n: "\<not> has_token []" by (simp add: has_token_def)
    from True ds have "a \<in> {CHR ''I'', CHR ''i''}" "b \<in> {CHR ''N'', CHR ''n''}" "ds \<noteq> []" by auto
    with e r d n show ?thesis by blast
  next
    case False
    with 1(2) have "re_search_In (b # cs) = Some ds" by auto
    with 1(1) False obtain pre a' b' rest where
      e: "b # cs = pre @ a' # b' # ds @ rest" and
      h: "a' \<in> {CHR ''I'', CHR ''i''}" "b' \<in> {CHR ''N'', CHR ''n''}" "ds \<noteq> []"
         "\<forall>c \<in> set ds. is_digit c" "rest = [] \<or> \<not> is_digit (hd rest)" and
      n: "\<not> has_token pre" by blast
    have "\<not> has_token (a # pre)"
    proof
      assume "has_token (a # pre)"
      with has_token_cases[of a pre] n obtain b0 d r where
        p: "pre = b0 # d # r" "a \<in> {CHR ''I'', CHR ''i''}" "b0 \<in> {CHR ''N'', CHR ''n''}" "is_digit d"
        by blast
      with e have "b = b0" "takeWhile is_digit cs \<noteq> []" by auto
      with p False show False by auto
    qed
    moreover have "a # b # cs = (a # pre) @ a' # b' # ds @ rest" using e by simp
    ultimately show ?thesis using h by blast
  qed
qed simp_all

lemma tie_example_full: "tie_of_response ''Out01 In05 All'' = Inr 5"
  by code_simp

lemma tie_example_bare: "tie_of_response ''05'' = Inr 5"
  by code_simp

lemma tie_example_garbage: "tie_of_response ''garbage'' = Inr 0"
  by code_simp

lemma tie_example_empty: "tie_of_response [] = Inr 0"
  by code_simp

lemma tie_of_response_token:
  assumes "re_search_In response = Some ds"
  shows "tie_of_response response
           = (if length ds \<le> 4300 then Inr (int (nat_of_digits ds)) else Inl ValueError)"
  using assms by (simp add: tie_of_response_def int_of_digits_def int_max_str_digits_def)

lemma tie_of_response_no_token:
  assumes "\<not> has_token response"
  shows "tie_of_response response
           = Inr (case py_int (strip response) of Some n \<Rightarrow> n | None \<Rightarrow> 0)"
proof -
  from assms have "re_search_In response = None" by (simp add: re_search_In_None_iff)
  then show ?thesis by (simp add: tie_of_response_def split: option.splits)
qed

text \<open>
  The tie number of every response text. With an \<^verbatim>\<open>In<digits>\<close> token, the digits of
  the leftmost one decide: their value when they are at most 4300, a raised
  \<^verbatim>\<open>ValueError\<close> beyond. With no token, the trimmed text read by \<^verbatim>\<open>int()\<close>, and 0 when
  that fails.
\<close>

lemma tie_of_response_cases:
  "(has_token response \<longrightarrow>
      (\<exists>pre a b ds rest. response = pre @ a # b # ds @ rest
         \<and> a \<in> {CHR ''I'', CHR ''i''} \<and> b \<in> {CHR ''N'', CHR ''n''}
         \<and> ds \<noteq> [] \<and> (\<forall>c \<in> set ds. is_digit c)
         \<and> (rest = [] \<or> \<not> is_digit (hd rest)) \<and> \<not> has_token pre
         \<and> tie_of_response response
              = (if length ds \<le> 4300 then Inr (int (nat_of_digits ds)) else Inl ValueError)))
   \<and> (\<not> has_token response \<longrightarrow>
        tie_of_response response
          = Inr (case py_int (strip response) of Some n \<Rightarrow> n | None \<Rightarrow> 0))"
proof (intro conjI impI)
  assume "has_token response"
  then obtain ds where s: "re_search_In response = Some ds"
    using re_search_In_None_iff[of response] by auto
  from re_search_In_Some[OF s] tie_of_response_token[OF s]
  show "\<exists>pre a b ds rest. response = pre @ a # b # ds @ rest
         \<and> a \<in> {CHR ''I'', CHR ''i''} \<and> b \<in> {CHR ''N'', CHR ''n''}
         \<and> ds \<noteq> [] \<and> (\<forall>c \<in> set ds. is_digit c)
         \<and> (rest = [] \<or> \<not> is_digit (hd rest)) \<and> \<not> has_token pre
         \<and> tie_of_response response
              = (if length ds \<le> 4300 then Inr (int (nat_of_digits ds)) else Inl ValueError)"
    by blast
next
  assume "\<not> has_token response"
  then show "tie_of_response response
          = Inr (case py_int (strip response) of Some n \<Rightarrow> n | None \<Rightarrow> 0)"
    by (rule tie_of_response_no_token)
qed

lemma last_dropWhile_ne: "dropWhile P xs \<noteq> [] \<Longrightarrow> last (dropWhile P xs) = last xs"
  by (metis last_appendR takeWhile_dropWhile_id)

lemma strip_ends:
  assumes "strip s \<noteq> []"
  shows "\<not> str_isspace (hd (strip s))" and "\<not> str_isspace (last (strip s))"
proof -
  let ?u = "dropWhile str_isspace s"
  let ?v = "dropWhile str_isspace (rev ?u)"
  have v: "?v \<noteq> []" using assms by (simp add: strip_def)
  have u: "?u \<noteq> []"
  proof
    assume "?u = []"
    then have "?v = []" by (simp only: rev.simps dropWhile.simps)
    with v show False by blast
  qed
  have "last (strip s) = hd ?v" unfolding strip_def by (rule last_rev)
  then show "\<not> str_isspace (last (strip s))" using hd_dropWhile[OF v] by simp
  have "hd (strip s) = last ?v" unfolding strip_def by (rule hd_rev)
  also have "\<dots> = last (rev ?u)" using v by (rule last_dropWhile_ne)
  also have "\<dots> = hd ?u" by (rule last_rev)
  finally show "\<not> str_isspace (hd (strip s))" using hd_dropWhile[OF u] by simp
qed

lemma c_isspace_str_isspace: "c_isspace c \<Longrightarrow> str_isspace c"
  by (auto simp: c_isspace_def str_isspace_def)

lemma c_strip_strip:
  "rev (dropWhile c_isspace (rev (dropWhile c_isspace (strip s)))) = strip s"
proof (cases "strip s = []")
  case True
  then show ?thesis by simp
next
  case False
  from strip_ends[OF False] have h: "\<not> c_isspace (hd (strip s))" "\<not> c_isspace (last (strip s))"
    using c_isspace_str_isspace by blast+
  have "dropWhile c_isspace (strip s) = strip s"
    using h(1) by (simp add: dropWhile_eq_self_iff)
  moreover have "dropWhile c_isspace (rev (strip s)) = rev (strip s)"
    using h(2) False by (simp add: dropWhile_eq_self_iff hd_rev)
  ultimately show ?thesis by simp
qed

lemma py_int_strip_negative:
  assumes "py_int (strip s) = Some v" "v < 0"
  shows "startswith (strip s) ''-''"
proof -
  from assms show ?thesis
    unfolding py_int_def c_strip_strip Let_def
    by (cases "strip s") (auto simp: startswith_def split: if_splits option.splits)
qed

lemma tie_of_response_sign:
  assumes "tie_of_response response = Inr v"
    and "has_token response \<or> \<not> startswith (strip response) ''-''"
  shows "0 \<le> v"
proof (cases "re_search_In response")
  case (Some ds)
  with assms(1) show ?thesis
    by (auto simp: tie_of_response_def split: option.splits)
next
  case None
  then have nt: "\<not> has_token response" by (simp add: re_search_In_None_iff)
  show ?thesis
  proof (cases "py_int (strip response)")
    case n: None
    with None assms(1) show ?thesis by (simp add: tie_of_response_def)
  next
    case (Some w)
    with None assms(1) have "w = v" by (simp add: tie_of_response_def)
    with py_int_strip_negative[of response w] Some assms(2) nt show ?thesis by fastforce
  qed
qed

text \<open>
  Claim C5 as stated fails: a device that answers \<^verbatim>\<open>-5\<close> makes \<^verbatim>\<open>get_output_tie\<close> return
  the negative number \<open>- 5\<close>, because \<^verbatim>\<open>int()\<close> accepts a sign.
\<close>

theorem get_output_tie_negative_counterexample:
  "fst (get_output_tie 1 neg_reply_client) = Inr (- 5) \<and> (- 5 :: int) < 0"
  by code_simp

text \<open>
  Claim C5, amended. The number \<^verbatim>\<open>get_output_tie\<close> returns is the tie number of the
  response text of its command, and it is non-negative whenever that text holds an
  \<^verbatim>\<open>In<digits>\<close> token or its trimmed form does not begin with a minus sign.
\<close>

theorem get_output_tie_sign:
  assumes "get_output_tie output s = (Inr v, s')"
  shows "\<exists>response. send_command (str_int output @ ''%'') True s = (Inr (Some response), s')
           \<and> tie_of_response response = Inr v
           \<and> (has_token response \<or> \<not> startswith (strip response) ''-'' \<longrightarrow> 0 \<le> v)"
proof -
  obtain r1 s1 where c: "send_command (str_int output @ ''%'') True s = (r1, s1)"
    by (cases "send_command (str_int output @ ''%'') True s")
  from assms c obtain response where r: "r1 = Inr (Some response)"
    by (cases r1) (auto simp: get_output_tie_def split: option.splits)
  from assms c r have t: "tie_of_response response = Inr v" and s: "s1 = s'"
    by (auto simp: get_output_tie_def split: sum.splits)
  from tie_of_response_sign[OF t] c r s t show ?thesis by blast
qed

theorem get_output_tie_sign_witness:
  "fst (get_output_tie 1 tied_client) = Inr 5
   \<and> (\<exists>response. send_command (str_int 1 @ ''%'') True tied_client
                     = (Inr (Some response), snd (get_output_tie 1 tied_client))
          \<and> tie_of_response response = Inr 5)"
proof -
  have f: "fst (get_output_tie 1 tied_client) = Inr 5" by code_simp
  then have "get_output_tie 1 tied_client = (Inr 5, snd (get_output_tie 1 tied_client))"
    by (metis prod.collapse)
  from get_output_tie_sign[OF this] f show ?thesis by blast
qed

text \<open>
  Claim C6. The acknowledgment check of \<^verbatim>\<open>set_output_tie\<close> holds exactly when the text
  contains \<^verbatim>\<open>Out\<close> and does not begin with \<^verbatim>\<open>E\<close>. It holds for the full
  acknowledgment line of the specification (its bullets written as their UTF-8 bytes)
  and fails for \<^verbatim>\<open>E10\<close> and for the empty text.
\<close>

theorem set_ack_iff:
  "(set_ack response \<longleftrightarrow>
      (\<exists>pre post. response = pre @ ''Out'' @ post) \<and> \<not> (\<exists>rest. response = CHR ''E'' # rest))
   \<and> set_ack (''Out01'' @ [CHR 0xE2, CHR 0x80, CHR 0xA2] @ ''In05''
                 @ [CHR 0xE2, CHR 0x80, CHR 0xA2] @ ''All'')
   \<and> \<not> set_ack ''E10''
   \<and> \<not> set_ack ''''"
proof (intro conjI)
  show "set_ack response \<longleftrightarrow>
      (\<exists>pre post. response = pre @ ''Out'' @ post) \<and> \<not> (\<exists>rest. response = CHR ''E'' # rest)"
    unfolding set_ack_def contains_iff startswith_iff by simp
qed (simp_all add: set_ack_def startswith_def)

theorem set_ack_iff_witness:
  "set_ack ''Out05 In03 All'' \<and> (\<exists>pre post. ''Out05 In03 All'' = pre @ ''Out'' @ post)"
proof -
  have "set_ack ''Out05 In03 All''" by (simp add: set_ack_def startswith_def)
  with set_ack_iff[of "''Out05 In03 All''"] show ?thesis by blast
qed

section \<open>Reading a logical response\<close>

lemma read_loop_stop:
  assumes "\<not> (looks_like_timestamp r \<and> k < 3)"
  shows "read_loop r k s = (Inr r, s)"
  by (subst read_loop.simps, rule if_not_P, rule assms)

lemma read_loop_step:
  assumes "looks_like_timestamp r \<and> k < 3"
  shows "read_loop r k s =
           (case read_until_prompt s of
              (Inl e, s') \<Rightarrow> (Inl e, s')
            | (Inr r', s') \<Rightarrow> read_loop r' (k + 1) s')"
  by (subst read_loop.simps, rule if_P, rule assms)

lemma read_until_prompt_Inr:
  assumes "read_until_prompt s = (Inr r, s')"
  shows "r = line_of (read_results s (reads s))" and "s' = s\<lparr>reads := Suc (reads s)\<rparr>"
    and "reader s \<noteq> None"
  using assms
  by (auto simp: read_until_prompt_def line_of_def split: if_splits read_result.splits)

lemma read_until_prompt_reads:
  "reads (snd (read_until_prompt s)) \<le> Suc (reads s)"
  by (simp add: read_until_prompt_def split: read_result.splits)

lemma read_loop_reads:
  "reads (snd (read_loop r k s)) \<le> reads s + (3 - k)"
proof (induction r k s rule: read_loop.induct)
  case (1 response retry_count s)
  show ?case
  proof (cases "looks_like_timestamp response \<and> retry_count < 3")
    case False
    then show ?thesis by (simp add: read_loop_stop)
  next
    case True
    show ?thesis
    proof (cases "read_until_prompt s")
      case (Pair res s1)
      have b: "reads s1 \<le> Suc (reads s)" using read_until_prompt_reads[of s] Pair by simp
      show ?thesis
      proof (cases res)
        case (Inl e)
        with True Pair b show ?thesis by (auto simp: read_loop_step)
      next
        case (Inr r1)
        from 1[OF True Pair[symmetric, unfolded Inr] refl]
        have "reads (snd (read_loop r1 (retry_count + 1) s1)) \<le> reads s1 + (3 - (retry_count + 1))" .
        with True Pair Inr b show ?thesis by (auto simp: read_loop_step)
      qed
    qed
  qed
qed

lemma read_loop_Inr:
  "read_loop r k s = (Inr r', s') \<Longrightarrow>
     \<exists>m. k + m \<le> max k 3 \<and> s' = s\<lparr>reads := reads s + m\<rparr>
       \<and> r' = (case m of 0 \<Rightarrow> r | Suc j \<Rightarrow> line_of (read_results s (reads s + j)))
       \<and> (\<forall>i<m. looks_like_timestamp (case i of 0 \<Rightarrow> r | Suc j \<Rightarrow> line_of (read_results s (reads s + j))))
       \<and> (k + m < 3 \<longrightarrow> \<not> looks_like_timestamp r')"
proof (induction r k s arbitrary: r' s' rule: read_loop.induct)
  case (1 response retry_count s)
  show ?case
  proof (cases "looks_like_timestamp response \<and> retry_count < 3")
    case False
    with 1(2) have "r' = response" "s' = s" by (simp_all add: read_loop_stop)
    with False show ?thesis by (intro exI[of _ 0]) auto
  next
    case True
    obtain res s1 where p: "read_until_prompt s = (res, s1)" by (cases "read_until_prompt s")
    show ?thesis
    proof (cases res)
      case (Inl e)
      with True p 1(2) show ?thesis by (simp add: read_loop_step)
    next
      case (Inr r1)
      note rp = read_until_prompt_Inr[OF p[unfolded Inr]]
      from True p Inr 1(2) have l: "read_loop r1 (retry_count + 1) s1 = (Inr r', s')"
        by (simp add: read_loop_step)
      from 1(1)[OF True p[symmetric, unfolded Inr] refl l]
      obtain m where m: "retry_count + 1 + m \<le> max (retry_count + 1) 3"
        "s' = s1\<lparr>reads := reads s1 + m\<rparr>"
        "r' = (case m of 0 \<Rightarrow> r1 | Suc j \<Rightarrow> line_of (read_results s1 (reads s1 + j)))"
        "\<forall>i<m. looks_like_timestamp (case i of 0 \<Rightarrow> r1 | Suc j \<Rightarrow> line_of (read_results s1 (reads s1 + j)))"
        "retry_count + 1 + m < 3 \<longrightarrow> \<not> looks_like_timestamp r'" by blast
      have a: "retry_count + Suc m \<le> max retry_count 3" using m(1) True by simp
      have b: "s' = s\<lparr>reads := reads s + Suc m\<rparr>" using m(2) rp(2) by simp
      have c: "r' = (case Suc m of 0 \<Rightarrow> response | Suc j \<Rightarrow> line_of (read_results s (reads s + j)))"
        using m(3) rp by (cases m) simp_all
      have d: "\<forall>i<Suc m. looks_like_timestamp (case i of 0 \<Rightarrow> response | Suc j \<Rightarrow> line_of (read_results s (reads s + j)))"
      proof (intro allI impI)
        fix i assume i: "i < Suc m"
        show "looks_like_timestamp (case i of 0 \<Rightarrow> response | Suc j \<Rightarrow> line_of (read_results s (reads s + j)))"
        proof (cases i)
          case 0
          with True show ?thesis by simp
        next
          case (Suc j)
          with i have "j < m" by simp
          with m(4) have "looks_like_timestamp (case j of 0 \<Rightarrow> r1 | Suc j' \<Rightarrow> line_of (read_results s1 (reads s1 + j')))" by blast
          with rp Suc show ?thesis by (cases j) simp_all
        qed
      qed
      have e: "retry_count + Suc m < 3 \<longrightarrow> \<not> looks_like_timestamp r'" using m(5) by simp
      from a b c d e show ?thesis by blast
    qed
  qed
qed

text \<open>
  Claim C3, amended. \<^verbatim>\<open>_read_response\<close> never reads more than 4 lines. When it returns,
  it has read \<open>n + 1\<close> lines with \<open>n \<le> 3\<close> re-reads; each of the first \<open>n\<close> lines was
  non-empty and held a comma and the text \<^verbatim>\<open>202\<close>; the line returned is the last one
  read (empty for a timeout); and unless all 3 retries were used, that line is empty or
  lacks the comma or the text \<^verbatim>\<open>202\<close>.
\<close>

theorem read_response_budget:
  "reads (snd (read_response s)) \<le> reads s + 4
   \<and> (\<forall>r s'. read_response s = (Inr r, s') \<longrightarrow>
        (\<exists>n\<le>3. s' = s\<lparr>reads := reads s + n + 1\<rparr>
           \<and> r = line_of (read_results s (reads s + n))
           \<and> (\<forall>i<n. looks_like_timestamp (line_of (read_results s (reads s + i))))
           \<and> (n < 3 \<longrightarrow> \<not> looks_like_timestamp r)))"
proof (intro conjI allI impI)
  obtain res s1 where p: "read_until_prompt s = (res, s1)" by (cases "read_until_prompt s")
  have b: "reads s1 \<le> Suc (reads s)" using read_until_prompt_reads[of s] p by simp
  show "reads (snd (read_response s)) \<le> reads s + 4"
  proof (cases res)
    case (Inl e)
    with p b show ?thesis by (simp add: read_response_def)
  next
    case (Inr r1)
    with p b read_loop_reads[of r1 0 s1] show ?thesis by (simp add: read_response_def)
  qed
next
  fix r s' assume a: "read_response s = (Inr r, s')"
  obtain res s1 where p: "read_until_prompt s = (res, s1)" by (cases "read_until_prompt s")
  from a p obtain r1 where r1: "res = Inr r1" and l: "read_loop r1 0 s1 = (Inr r, s')"
    by (cases res) (simp_all add: read_response_def)
  note rp = read_until_prompt_Inr[OF p[unfolded r1]]
  from read_loop_Inr[OF l] obtain m where m: "m \<le> 3"
    "s' = s1\<lparr>reads := reads s1 + m\<rparr>"
    "r = (case m of 0 \<Rightarrow> r1 | Suc j \<Rightarrow> line_of (read_results s1 (reads s1 + j)))"
    "\<forall>i<m. looks_like_timestamp (case i of 0 \<Rightarrow> r1 | Suc j \<Rightarrow> line_of (read_results s1 (reads s1 + j)))"
    "m < 3 \<longrightarrow> \<not> looks_like_timestamp r" by auto
  have 1: "s' = s\<lparr>reads := reads s + m + 1\<rparr>" using m(2) rp(2) by simp
  have 2: "r = line_of (read_results s (reads s + m))" using m(3) rp by (cases m) simp_all
  have 3: "\<forall>i<m. looks_like_timestamp (line_of (read_results s (reads s + i)))"
  proof (intro allI impI)
    fix i assume "i < m"
    with m(4) have "looks_like_timestamp (case i of 0 \<Rightarrow> r1 | Suc j \<Rightarrow> line_of (read_results s1 (reads s1 + j)))" by blast
    with rp show "looks_like_timestamp (line_of (read_results s (reads s + i)))" by (cases i) simp_all
  qed
  from m(1) 1 2 3 m(5)
  show "\<exists>n\<le>3. s' = s\<lparr>reads := reads s + n + 1\<rparr>
           \<and> r = line_of (read_results s (reads s + n))
           \<and> (\<forall>i<n. looks_like_timestamp (line_of (read_results s (reads s + i))))
           \<and> (n < 3 \<longrightarrow> \<not> looks_like_timestamp r)" by blast
qed

theorem read_response_budget_witness:
  "looks_like_timestamp ''Mon, 05 Jan 2026 10:15:00''
   \<and> fst (read_response stamped_client) = Inr ''Mon, 05 Jan 2026 10:15:00''
   \<and> reads (snd (read_response stamped_client)) = reads stamped_client + 4"
proof -
  have n: "looks_like_timestamp ''Mon, 05 Jan 2026 10:15:00''" by code_simp
  have f: "fst (read_response stamped_client) = Inr ''Mon, 05 Jan 2026 10:15:00''" by code_simp
  then have e: "read_response stamped_client
      = (Inr ''Mon, 05 Jan 2026 10:15:00'', snd (read_response stamped_client))"
    by (metis prod.collapse)
  from read_response_budget[of stamped_client] e obtain k where
    k: "k \<le> 3" "snd (read_response stamped_client) = stamped_client\<lparr>reads := reads stamped_client + k + 1\<rparr>"
       "k < 3 \<longrightarrow> \<not> looks_like_timestamp ''Mon, 05 Jan 2026 10:15:00''"
    by blast
  from k(1,3) n have "k = 3" by auto
  with k(2) have "reads (snd (read_response stamped_client)) = reads stamped_client + 4" by simp
  with n f show ?thesis by blast
qed

text \<open>
  Claim C3 as stated fails: the line \<^verbatim>\<open>201, ready\<close> is not empty, holds a comma and a
  three-digit token that begins with \<^verbatim>\<open>20\<close>, and no retry has been used, yet
  \<^verbatim>\<open>_read_response\<close> returns it after a single read.
\<close>

theorem read_response_201_counterexample:
  "spec_timestamp_noise ''201, ready''
   \<and> fst (read_response room_201_client) = Inr ''201, ready''
   \<and> reads (snd (read_response room_201_client)) = reads room_201_client + 1"
  by code_simp

section \<open>Connecting\<close>

lemma read_until_prompt_shape:
  assumes "read_until_prompt s = (r, s')"
  shows "(\<exists>x. r = Inr x \<and> s' = s\<lparr>reads := Suc (reads s)\<rparr>)
       \<or> ((r = Inl NoReader \<or> r = Inl TransportError) \<and> (\<exists>n. s' = s\<lparr>reads := n, connected := False\<rparr>))"
proof (cases "reader s = None")
  case True
  with assms have "r = Inl NoReader" "s' = s\<lparr>reads := reads s, connected := False\<rparr>"
    by (auto simp: read_until_prompt_def)
  then show ?thesis by blast
next
  case False
  show ?thesis
  proof (cases "read_results s (reads s)")
    case (ReadData bs)
    with False assms show ?thesis by (auto simp: read_until_prompt_def)
  next
    case ReadTimeout
    with False assms show ?thesis by (auto simp: read_until_prompt_def)
  next
    case ReadError
    with False assms have "r = Inl TransportError" "s' = s\<lparr>reads := Suc (reads s), connected := False\<rparr>"
      by (auto simp: read_until_prompt_def)
    then show ?thesis by blast
  qed
qed

lemma read_loop_shape:
  "read_loop r0 k s = (r, s') \<Longrightarrow>
     (\<exists>x n. r = Inr x \<and> s' = s\<lparr>reads := n\<rparr>)
     \<or> ((r = Inl NoReader \<or> r = Inl TransportError) \<and> (\<exists>n. s' = s\<lparr>reads := n, connected := False\<rparr>))"
proof (induction r0 k s arbitrary: r s' rule: read_loop.induct)
  case (1 response retry_count s)
  show ?case
  proof (cases "looks_like_timestamp response \<and> retry_count < 3")
    case False
    with 1(2) have "r = Inr response" "s' = s\<lparr>reads := reads s\<rparr>"
      by (simp_all add: read_loop_stop)
    then show ?thesis by blast
  next
    case True
    obtain res s1 where p: "read_until_prompt s = (res, s1)" by (cases "read_until_prompt s")
    show ?thesis
    proof (cases res)
      case (Inl e)
      with True p 1(2) have "r = res" "s' = s1" by (simp_all add: read_loop_step)
      with read_until_prompt_shape[OF p] Inl show ?thesis by auto
    next
      case (Inr r1)
      from True p Inr 1(2) have l: "read_loop r1 (retry_count + 1) s1 = (r, s')"
        by (simp add: read_loop_step)
      from read_until_prompt_shape[OF p] Inr have s1: "s1 = s\<lparr>reads := Suc (reads s)\<rparr>" by auto
      from 1(1)[OF True p[symmetric, unfolded Inr] refl l]
      show ?thesis unfolding s1 by auto
    qed
  qed
qed

lemma read_response_shape:
  assumes "read_response s = (r, s')"
  shows "(\<exists>x n. r = Inr x \<and> s' = s\<lparr>reads := n\<rparr>)
     \<or> ((r = Inl NoReader \<or> r = Inl TransportError) \<and> (\<exists>n. s' = s\<lparr>reads := n, connected := False\<rparr>))"
proof -
  obtain res s1 where p: "read_until_prompt s = (res, s1)" by (cases "read_until_prompt s")
  show ?thesis
  proof (cases res)
    case (Inl e)
    with p assms have "r = res" "s' = s1" by (simp_all add: read_response_def)
    with read_until_prompt_shape[OF p] Inl show ?thesis by auto
  next
    case (Inr r1)
    with p assms have l: "read_loop r1 0 s1 = (r, s')" by (simp add: read_response_def)
    from read_until_prompt_shape[OF p] Inr have s1: "s1 = s\<lparr>reads := Suc (reads s)\<rparr>" by auto
    from read_loop_shape[OF l] show ?thesis unfolding s1 by auto
  qed
qed

lemma write_drain_shape:
  assumes "write_drain data s = (r, s')"
  shows "s' = s\<lparr>wire := wire s @ [data]\<rparr>"
    and "r = Inr () \<or> r = Inl TimeoutError \<or> r = Inl TransportError"
  using assms by (auto simp: write_drain_def Let_def split: write_result.splits)

lemma send_command_raw_shape:
  assumes "send_command_raw c s = (r, s')"
  shows "(r = Inl NotConnected \<and> writer s = None \<and> s' = s)
       \<or> (r = Inl UnicodeEncodeError \<and> s' = s)
       \<or> ((r = Inr () \<or> r = Inl TimeoutError \<or> r = Inl TransportError)
            \<and> s' = s\<lparr>wire := wire s @ [c @ crlf]\<rparr>)"
proof (cases "writer s = None")
  case True
  with assms show ?thesis by (simp add: send_command_raw_def)
next
  case False
  show ?thesis
  proof (cases "encode_ascii (c @ crlf)")
    case None
    with False assms show ?thesis by (auto simp: send_command_raw_def)
  next
    case (Some data)
    then have d: "data = c @ crlf" by (auto simp: encode_ascii_def split: if_splits)
    from False Some assms have "write_drain data s = (r, s')" by (auto simp: send_command_raw_def)
    from write_drain_shape[OF this] d show ?thesis by auto
  qed
qed

lemma read_response_frame:
  assumes "read_response s = (r, s')"
  shows "password s' = password s" and "wire s' = wire s" and "writer s' = writer s"
    and "reader s' = reader s" and "opens s' = opens s"
    and "write_results s' = write_results s"
  using read_response_shape[OF assms] by auto

lemma read_until_prompt_frame:
  assumes "read_until_prompt s = (r, s')"
  shows "password s' = password s" and "wire s' = wire s" and "writer s' = writer s"
    and "reader s' = reader s" and "opens s' = opens s"
    and "write_results s' = write_results s"
  using read_until_prompt_shape[OF assms] by auto

text \<open>What one run of the try block of connect can leave behind.\<close>

lemma connect_try_shape:
  assumes "connect_try s = (r, s')"
  shows "((r = Inr () \<and> connected s' \<and> writer s' = Some (opens s) \<and> reader s' = Some (opens s))
          \<or> (r = Inl TimeoutError \<and> connected s' = connected s)
          \<or> (\<exists>e. r = Inl e \<and> e \<noteq> TimeoutError))
       \<and> (wire s' = wire s
            \<or> (\<exists>pw. password s = Some pw \<and> pw \<noteq> [] \<and> wire s' = wire s @ [pw @ crlf]))
       \<and> (open_results s (opens s) = OpenOk
            \<longrightarrow> writer s' = Some (opens s) \<and> reader s' = Some (opens s))"
proof (cases "open_results s (opens s)")
  case OpenTimeout
  then have "connect_try s = (Inl TimeoutError, s\<lparr>opens := Suc (opens s)\<rparr>)"
    by (simp add: connect_try_def)
  with assms have "r = Inl TimeoutError" "s' = s\<lparr>opens := Suc (opens s)\<rparr>" by simp_all
  with OpenTimeout show ?thesis by simp
next
  case OpenError
  then have "connect_try s = (Inl TransportError, s\<lparr>opens := Suc (opens s)\<rparr>)"
    by (simp add: connect_try_def)
  with assms have "r = Inl TransportError" "s' = s\<lparr>opens := Suc (opens s)\<rparr>" by simp_all
  with OpenError show ?thesis by simp
next
  case OpenOk
  define s1 where "s1 = s\<lparr>opens := Suc (opens s), reader := Some (opens s), writer := Some (opens s)\<rparr>"
  have w1: "wire s1 = wire s" "password s1 = password s"
    "writer s1 = Some (opens s)" "reader s1 = Some (opens s)" by (simp_all add: s1_def)
  obtain r2 s2 where p2: "read_until_prompt s1 = (r2, s2)" by (cases "read_until_prompt s1")
  note fr2 = read_until_prompt_frame[OF p2]
  show ?thesis
  proof (cases r2)
    case (Inl e)
    with OpenOk p2[unfolded s1_def] have "connect_try s = (Inl e, s2)" by (simp add: connect_try_def)
    with assms have "r = Inl e" "s' = s2" by simp_all
    with read_until_prompt_shape[OF p2] Inl fr2(2,3,4) w1 show ?thesis by auto
  next
    case (Inr banner)
    with read_until_prompt_shape[OF p2] have s2: "s2 = s1\<lparr>reads := Suc (reads s1)\<rparr>" by auto
    obtain r3 s3 where p3: "read_response s2 = (r3, s3)" by (cases "read_response s2")
    note fr3 = read_response_frame[OF p3]
    show ?thesis
    proof (cases r3)
      case (Inl e)
      with OpenOk p2[unfolded s1_def] Inr p3 have "connect_try s = (Inl e, s3)" by (simp add: connect_try_def)
      with assms have "r = Inl e" "s' = s3" by simp_all
      with read_response_shape[OF p3] Inl fr3(2,3,4) fr2(2,3,4) w1 show ?thesis by auto
    next
      case r3: (Inr response)
      with read_response_shape[OF p3] obtain n3 where s3: "s3 = s2\<lparr>reads := n3\<rparr>" by auto
      have f3: "connected s3 = connected s" "writer s3 = Some (opens s)" "reader s3 = Some (opens s)"
        "wire s3 = wire s" "password s3 = password s"
        unfolding s3 s2 s1_def by simp_all
      have ct:
        "connect_try s = (if contains response ''Password:'' then
                      (case password s3 of
                         None \<Rightarrow> (Inl PasswordRequired, s3)
                       | Some pw \<Rightarrow>
                           if pw = [] then (Inl PasswordRequired, s3)
                           else
                             (case send_command_raw pw s3 of
                                (Inl e, s4) \<Rightarrow> (Inl e, s4)
                              | (Inr u, s4) \<Rightarrow>
                                  (case read_response s4 of
                                     (Inl e, s5) \<Rightarrow> (Inl e, s5)
                                   | (Inr login_response, s5) \<Rightarrow>
                                       if \<not> contains login_response ''Login''
                                       then (Inl InvalidPassword, s5)
                                       else (Inr (), s5\<lparr>connected := True\<rparr>))))
                    else (Inr (), s3\<lparr>connected := True\<rparr>))"
        using OpenOk p2[unfolded s1_def] Inr p3 r3 by (simp add: connect_try_def)
      note body = assms[unfolded ct, symmetric]
      show ?thesis
      proof (cases "contains response ''Password:''")
        case False
        with body f3 show ?thesis by simp
      next
        case True
        show ?thesis
        proof (cases "password s3")
          case None
          with True body f3 show ?thesis by simp
        next
          case (Some pw)
          show ?thesis
          proof (cases "pw = []")
            case True
            with \<open>contains response ''Password:''\<close> Some body f3 show ?thesis by simp
          next
            case False
            obtain r4 s4 where p4: "send_command_raw pw s3 = (r4, s4)" by (cases "send_command_raw pw s3")
            from send_command_raw_shape[OF p4] f3
            have f4: "connected s4 = connected s" "writer s4 = Some (opens s)" "reader s4 = Some (opens s)"
              "wire s4 = wire s \<or> wire s4 = wire s @ [pw @ crlf]"
              by auto
            have pw: "password s = Some pw" using Some f3 by simp
            show ?thesis
            proof (cases r4)
              case (Inl e)
              with True Some False p4 body have "r = Inl e" "s' = s4" by simp_all
              with f4 pw False show ?thesis by (cases "e = TimeoutError") auto
            next
              case r4: (Inr u)
              obtain r5 s5 where p5: "read_response s4 = (r5, s5)" by (cases "read_response s4")
              note fr5 = read_response_frame[OF p5]
              have w5: "wire s5 = wire s \<or> wire s5 = wire s @ [pw @ crlf]" using fr5(2) f4(4) by simp
              show ?thesis
              proof (cases r5)
                case (Inl e)
                with True Some False p4 r4 p5 body have "r = Inl e" "s' = s5" by simp_all
                with read_response_shape[OF p5] Inl w5 pw False fr5(3,4) f4 show ?thesis by auto
              next
                case r5: (Inr login_response)
                with read_response_shape[OF p5] obtain n5 where s5: "s5 = s4\<lparr>reads := n5\<rparr>" by auto
                have f5: "connected s5 = connected s" "writer s5 = Some (opens s)" "reader s5 = Some (opens s)"
                  using f4 by (simp_all add: s5)
                show ?thesis
                proof (cases "contains login_response ''Login''")
                  case l: True
                  with True Some False p4 r4 p5 r5 body
                  have "r = Inr ()" "s' = s5\<lparr>connected := True\<rparr>" by simp_all
                  with f5 w5 pw False show ?thesis by auto
                next
                  case l: False
                  with True Some False p4 r4 p5 r5 body
                  have "r = Inl InvalidPassword" "s' = s5" by simp_all
                  with f5 w5 pw False show ?thesis by auto
                qed
              qed
            qed
          qed
        qed
      qed
    qed
  qed
qed

text \<open>The same for connect itself, with its two handlers.\<close>

lemma connect_shape:
  assumes "connect s = (r, s')"
  shows "(r = Inr () \<and> connected s' \<and> writer s' = Some (opens s) \<and> reader s' = Some (opens s))
          \<or> (r = Inl ConnectTimeout \<and> connected s' = connected s)
          \<or> (\<exists>e. r = Inl (ConnectFailed e) \<and> \<not> connected s')"
    and "wire s' = wire s
            \<or> (\<exists>pw. password s = Some pw \<and> pw \<noteq> [] \<and> wire s' = wire s @ [pw @ crlf])"
    and "open_results s (opens s) = OpenOk
            \<Longrightarrow> writer s' = Some (opens s) \<and> reader s' = Some (opens s)"
proof -
  obtain r1 s1 where t: "connect_try s = (r1, s1)" by (cases "connect_try s")
  note sh = connect_try_shape[OF t]
  have st: "s' = s1 \<or> s' = s1\<lparr>connected := False\<rparr>"
  proof (cases r1)
    case (Inr u)
    with t assms show ?thesis by (simp add: connect_def)
  next
    case (Inl e)
    with t assms show ?thesis by (cases "e = TimeoutError") (simp_all add: connect_def)
  qed
  show "open_results s (opens s) = OpenOk
            \<Longrightarrow> writer s' = Some (opens s) \<and> reader s' = Some (opens s)"
    using sh st by auto
  show "(r = Inr () \<and> connected s' \<and> writer s' = Some (opens s) \<and> reader s' = Some (opens s))
          \<or> (r = Inl ConnectTimeout \<and> connected s' = connected s)
          \<or> (\<exists>e. r = Inl (ConnectFailed e) \<and> \<not> connected s')"
  proof (cases r1)
    case (Inr u)
    with t assms have "r = Inr ()" "s' = s1" by (simp_all add: connect_def)
    with sh Inr show ?thesis by simp
  next
    case (Inl e)
    show ?thesis
    proof (cases "e = TimeoutError")
      case True
      with Inl t assms have "r = Inl ConnectTimeout" "s' = s1" by (simp_all add: connect_def)
      with sh Inl True show ?thesis by simp
    next
      case False
      with Inl t assms have "r = Inl (ConnectFailed e)" "s' = s1\<lparr>connected := False\<rparr>"
        by (simp_all add: connect_def)
      then show ?thesis by simp
    qed
  qed
  show "wire s' = wire s
            \<or> (\<exists>pw. password s = Some pw \<and> pw \<noteq> [] \<and> wire s' = wire s @ [pw @ crlf])"
  proof (cases r1)
    case (Inr u)
    with t assms have "s' = s1" by (simp_all add: connect_def)
    with sh show ?thesis by simp
  next
    case (Inl e)
    with t assms have "s' = s1 \<or> s' = s1\<lparr>connected := False\<rparr>"
      by (cases "e = TimeoutError") (simp_all add: connect_def)
    with sh show ?thesis by auto
  qed
qed





lemma read_until_prompt_password:
  "read_until_prompt (s\<lparr>password := p\<rparr>)
     = (fst (read_until_prompt s), (snd (read_until_prompt s))\<lparr>password := p\<rparr>)"
  by (simp add: read_until_prompt_def split: read_result.splits)

lemma read_loop_password:
  "read_loop r k (s\<lparr>password := p\<rparr>)
     = (fst (read_loop r k s), (snd (read_loop r k s))\<lparr>password := p\<rparr>)"
proof (induction r k s rule: read_loop.induct)
  case (1 response retry_count s)
  show ?case
  proof (cases "looks_like_timestamp response \<and> retry_count < 3")
    case False
    then show ?thesis by (simp add: read_loop_stop)
  next
    case True
    obtain res s1 where p: "read_until_prompt s = (res, s1)" by (cases "read_until_prompt s")
    then have q: "read_until_prompt (s\<lparr>password := p\<rparr>) = (res, s1\<lparr>password := p\<rparr>)"
      by (simp add: read_until_prompt_password)
    show ?thesis
    proof (cases res)
      case (Inl e)
      with True p q show ?thesis by (simp add: read_loop_step)
    next
      case (Inr r1)
      from 1[OF True p[symmetric, unfolded Inr] refl]
      have ih: "read_loop r1 (retry_count + 1) (s1\<lparr>password := p\<rparr>)
          = (fst (read_loop r1 (retry_count + 1) s1), (snd (read_loop r1 (retry_count + 1) s1))\<lparr>password := p\<rparr>)" .
      have a: "read_loop response retry_count s = read_loop r1 (retry_count + 1) s1"
        using True p Inr by (simp add: read_loop_step)
      have b: "read_loop response retry_count (s\<lparr>password := p\<rparr>)
                 = read_loop r1 (retry_count + 1) (s1\<lparr>password := p\<rparr>)"
        using True q Inr by (simp add: read_loop_step)
      show ?thesis unfolding a b by (rule ih)
    qed
  qed
qed

lemma read_response_password:
  "read_response (s\<lparr>password := p\<rparr>)
     = (fst (read_response s), (snd (read_response s))\<lparr>password := p\<rparr>)"
proof -
  obtain res s1 where p: "read_until_prompt s = (res, s1)" by (cases "read_until_prompt s")
  then have q: "read_until_prompt (s\<lparr>password := p\<rparr>) = (res, s1\<lparr>password := p\<rparr>)"
    by (simp add: read_until_prompt_password)
  show ?thesis
  proof (cases res)
    case (Inl e)
    with p q show ?thesis by (simp add: read_response_def)
  next
    case (Inr r1)
    with p q show ?thesis by (simp add: read_response_def read_loop_password)
  qed
qed

text \<open>The try block of connect when the credential is missing or empty.\<close>

lemma connect_try_no_credential:
  assumes q: "q = None \<or> q = Some []"
  shows "connect_try (s\<lparr>password := q\<rparr>)
           = (fst (connect_try (s\<lparr>password := None\<rparr>)),
              (snd (connect_try (s\<lparr>password := None\<rparr>)))\<lparr>password := q\<rparr>)"
proof (cases "open_results s (opens s)")
  case OpenTimeout
  then show ?thesis by (simp add: connect_try_def)
next
  case OpenError
  then show ?thesis by (simp add: connect_try_def)
next
  case OpenOk
  define s1 where "s1 = s\<lparr>opens := Suc (opens s), reader := Some (opens s), writer := Some (opens s)\<rparr>"
  have e1: "\<And>p. (s\<lparr>password := p\<rparr>)\<lparr>opens := Suc (opens (s\<lparr>password := p\<rparr>)),
                reader := Some (opens (s\<lparr>password := p\<rparr>)),
                writer := Some (opens (s\<lparr>password := p\<rparr>))\<rparr> = s1\<lparr>password := p\<rparr>"
    by (simp add: s1_def)
  obtain r2 s2 where p2: "read_until_prompt s1 = (r2, s2)" by (cases "read_until_prompt s1")
  have p2': "\<And>p. read_until_prompt (s1\<lparr>password := p\<rparr>) = (r2, s2\<lparr>password := p\<rparr>)"
    using p2 by (simp add: read_until_prompt_password)
  have open': "\<And>p. open_results (s\<lparr>password := p\<rparr>) (opens (s\<lparr>password := p\<rparr>)) = OpenOk"
    using OpenOk by simp
  show ?thesis
  proof (cases r2)
    case (Inl e)
    have "\<And>p. connect_try (s\<lparr>password := p\<rparr>) = (Inl e, s2\<lparr>password := p\<rparr>)"
      unfolding connect_try_def open' e1 p2' by (simp add: Inl)
    then show ?thesis by simp
  next
    case (Inr banner)
    obtain r3 s3 where p3: "read_response s2 = (r3, s3)" by (cases "read_response s2")
    have p3': "\<And>p. read_response (s2\<lparr>password := p\<rparr>) = (r3, s3\<lparr>password := p\<rparr>)"
      using p3 by (simp add: read_response_password)
    show ?thesis
    proof (cases r3)
      case (Inl e)
      have "\<And>p. connect_try (s\<lparr>password := p\<rparr>) = (Inl e, s3\<lparr>password := p\<rparr>)"
        unfolding connect_try_def open' e1 p2' by (simp add: Inr p3' Inl)
      then show ?thesis by simp
    next
      case r3: (Inr response)
      show ?thesis
      proof (cases "contains response ''Password:''")
        case False
        have "\<And>p. connect_try (s\<lparr>password := p\<rparr>) = (Inr (), s3\<lparr>password := p, connected := True\<rparr>)"
          unfolding connect_try_def open' e1 p2' using False by (simp add: Inr p3' r3)
        then show ?thesis by simp
      next
        case True
        have "\<And>p. p = None \<or> p = Some [] \<Longrightarrow>
                connect_try (s\<lparr>password := p\<rparr>) = (Inl PasswordRequired, s3\<lparr>password := p\<rparr>)"
          unfolding connect_try_def open' e1 p2' using True by (auto simp: Inr p3' r3)
        with q show ?thesis by simp
      qed
    qed
  qed
qed

lemma connect_no_credential:
  assumes q: "q = None \<or> q = Some []"
  shows "connect (s\<lparr>password := q\<rparr>)
           = (fst (connect (s\<lparr>password := None\<rparr>)),
              (snd (connect (s\<lparr>password := None\<rparr>)))\<lparr>password := q\<rparr>)"
proof -
  obtain r t where n: "connect_try (s\<lparr>password := None\<rparr>) = (r, t)"
    by (cases "connect_try (s\<lparr>password := None\<rparr>)")
  with connect_try_no_credential[OF q, of s]
  have e: "connect_try (s\<lparr>password := q\<rparr>) = (r, t\<lparr>password := q\<rparr>)" by simp
  show ?thesis
  proof (cases r)
    case (Inr u)
    with n e show ?thesis by (simp add: connect_def)
  next
    case (Inl x)
    with n e show ?thesis by (cases "x = TimeoutError") (simp_all add: connect_def)
  qed
qed

text \<open>
  Claim C10. With the empty string as credential, \<^verbatim>\<open>connect\<close> gives the result and
  leaves the session that it gives and leaves with no credential at all (the credential
  field apart). In particular, when the connection opens, the banner is read and the
  logical response that follows holds \<^verbatim>\<open>Password:\<close>, it raises the connect failure
  that wraps the password-required error, clears the connected flag, and has written
  nothing: the wire is as it was.
\<close>

theorem connect_empty_credential:
  "connect (s\<lparr>password := Some []\<rparr>)
     = (fst (connect (s\<lparr>password := None\<rparr>)),
        (snd (connect (s\<lparr>password := None\<rparr>)))\<lparr>password := Some []\<rparr>)
   \<and> (\<forall>banner s2 response s3.
         open_results s (opens s) = OpenOk
         \<and> read_until_prompt (s\<lparr>password := Some [], opens := Suc (opens s),
                                 reader := Some (opens s), writer := Some (opens s)\<rparr>)
             = (Inr banner, s2)
         \<and> read_response s2 = (Inr response, s3)
         \<and> contains response ''Password:''
         \<longrightarrow> connect (s\<lparr>password := Some []\<rparr>)
               = (Inl (ConnectFailed PasswordRequired), s3\<lparr>connected := False\<rparr>)
             \<and> wire s3 = wire s)"
proof -
  have a: "connect (s\<lparr>password := Some []\<rparr>)
     = (fst (connect (s\<lparr>password := None\<rparr>)),
        (snd (connect (s\<lparr>password := None\<rparr>)))\<lparr>password := Some []\<rparr>)"
    by (rule connect_no_credential) simp
  have b: "\<forall>banner s2 response s3.
         open_results s (opens s) = OpenOk
         \<and> read_until_prompt (s\<lparr>password := Some [], opens := Suc (opens s),
                                 reader := Some (opens s), writer := Some (opens s)\<rparr>)
             = (Inr banner, s2)
         \<and> read_response s2 = (Inr response, s3)
         \<and> contains response ''Password:''
         \<longrightarrow> connect (s\<lparr>password := Some []\<rparr>)
               = (Inl (ConnectFailed PasswordRequired), s3\<lparr>connected := False\<rparr>)
             \<and> wire s3 = wire s"
  proof (intro allI impI)
    fix banner s2 response s3
    assume h: "open_results s (opens s) = OpenOk
         \<and> read_until_prompt (s\<lparr>password := Some [], opens := Suc (opens s),
                                 reader := Some (opens s), writer := Some (opens s)\<rparr>)
             = (Inr banner, s2)
         \<and> read_response s2 = (Inr response, s3)
         \<and> contains response ''Password:''"
    then have o: "open_results s (opens s) = OpenOk"
      and p2: "read_until_prompt (s\<lparr>password := Some [], opens := Suc (opens s),
                                 reader := Some (opens s), writer := Some (opens s)\<rparr>)
             = (Inr banner, s2)"
      and p3: "read_response s2 = (Inr response, s3)"
      and c: "contains response ''Password:''" by blast+
    note f2 = read_until_prompt_frame[OF p2]
    note f3 = read_response_frame[OF p3]
    have pw: "password s3 = Some []" using f3(1) f2(1) by simp
    have w: "wire s3 = wire s" using f3(2) f2(2) by simp
    have "connect_try (s\<lparr>password := Some []\<rparr>) = (Inl PasswordRequired, s3)"
      using o p2 p3 c pw by (simp add: connect_try_def)
    then have "connect (s\<lparr>password := Some []\<rparr>)
               = (Inl (ConnectFailed PasswordRequired), s3\<lparr>connected := False\<rparr>)"
      by (simp add: connect_def)
    with w show "connect (s\<lparr>password := Some []\<rparr>)
               = (Inl (ConnectFailed PasswordRequired), s3\<lparr>connected := False\<rparr>)
             \<and> wire s3 = wire s" by blast
  qed
  from a b show ?thesis by blast
qed

theorem connect_empty_credential_witness:
  "open_results prompting_client (opens prompting_client) = OpenOk
   \<and> fst (connect (prompting_client\<lparr>password := Some []\<rparr>)) = Inl (ConnectFailed PasswordRequired)
   \<and> fst (connect (prompting_client\<lparr>password := None\<rparr>)) = Inl (ConnectFailed PasswordRequired)
   \<and> wire (snd (connect (prompting_client\<lparr>password := Some []\<rparr>))) = wire prompting_client"
proof -
  let ?s1 = "prompting_client\<lparr>password := Some [], opens := Suc (opens prompting_client),
                reader := Some (opens prompting_client), writer := Some (opens prompting_client)\<rparr>"
  let ?s2 = "snd (read_until_prompt ?s1)"
  let ?s3 = "snd (read_response ?s2)"
  have o: "open_results prompting_client (opens prompting_client) = OpenOk"
    by (simp add: prompting_client_def)
  have "fst (read_until_prompt ?s1) = Inr ''(c) Extron Electronics''" by code_simp
  then have p2: "read_until_prompt ?s1 = (Inr ''(c) Extron Electronics'', ?s2)"
    by (metis prod.collapse)
  have "fst (read_response ?s2) = Inr ''Password:''" by code_simp
  then have p3: "read_response ?s2 = (Inr ''Password:'', ?s3)"
    by (metis prod.collapse)
  have c: "contains ''Password:'' ''Password:''" by code_simp
  have n: "fst (connect (prompting_client\<lparr>password := None\<rparr>)) = Inl (ConnectFailed PasswordRequired)"
    by code_simp
  from connect_empty_credential[of prompting_client] o p2 p3 c
  have r: "connect (prompting_client\<lparr>password := Some []\<rparr>)
               = (Inl (ConnectFailed PasswordRequired), ?s3\<lparr>connected := False\<rparr>)"
    and w: "wire ?s3 = wire prompting_client" by blast+
  from r have "fst (connect (prompting_client\<lparr>password := Some []\<rparr>)) = Inl (ConnectFailed PasswordRequired)"
    and "snd (connect (prompting_client\<lparr>password := Some []\<rparr>)) = ?s3\<lparr>connected := False\<rparr>"
    by simp_all
  with o n w show ?thesis by simp
qed

section \<open>Sending a command\<close>

lemma ensure_connected_connected: "is_connected s \<Longrightarrow> ensure_connected s = (Inr (), s)"
  by (simp add: ensure_connected_def)

lemma ensure_connected_disconnected: "\<not> is_connected s \<Longrightarrow> ensure_connected s = connect s"
  by (simp add: ensure_connected_def)

lemma send_command_connected:
  assumes "is_connected s"
  shows "send_command c x s =
           (case send_command_try c x s of
              (Inl e, s2) \<Rightarrow> (Inl e, s2\<lparr>connected := False\<rparr>)
            | (Inr r, s2) \<Rightarrow> (Inr r, s2))"
  by (simp add: send_command_def ensure_connected_connected[OF assms])

lemma send_command_try_shape:
  assumes "send_command_try c x s = (r, s')"
  shows "writer s' = writer s" and "password s' = password s"
    and "wire s' = wire s \<or> wire s' = wire s @ [c @ crlf]"
    and "writer s \<noteq> None \<Longrightarrow> encode_ascii (c @ crlf) \<noteq> None \<Longrightarrow> wire s' = wire s @ [c @ crlf]"
    and "x \<Longrightarrow> r \<noteq> Inr None"
proof -
  have all: "writer s' = writer s \<and> password s' = password s
     \<and> (wire s' = wire s \<or> wire s' = wire s @ [c @ crlf])
     \<and> (writer s \<noteq> None \<longrightarrow> encode_ascii (c @ crlf) \<noteq> None \<longrightarrow> wire s' = wire s @ [c @ crlf])
     \<and> (x \<longrightarrow> r \<noteq> Inr None)"
  proof (cases "writer s")
    case None
    with assms show ?thesis by (auto simp: send_command_try_def)
  next
    case (Some w)
    show ?thesis
    proof (cases "encode_ascii (c @ crlf)")
      case None
      with Some assms show ?thesis by (auto simp: send_command_try_def)
    next
      case enc: (Some data)
      then have d: "data = c @ crlf" by (auto simp: encode_ascii_def split: if_splits)
      obtain r1 s1 where w: "write_drain data s = (r1, s1)" by (cases "write_drain data s")
      note ws = write_drain_shape[OF w]
      show ?thesis
      proof (cases r1)
        case (Inl e)
        with Some enc w assms have "r = Inl e" "s' = s1" by (simp_all add: send_command_try_def)
        with ws d show ?thesis by simp
      next
        case (Inr u)
        show ?thesis
        proof (cases x)
          case False
          with Some enc w Inr assms have "r = Inr None" "s' = s1" by (simp_all add: send_command_try_def)
          with ws d False show ?thesis by simp
        next
          case True
          obtain r2 s2 where p: "read_response s1 = (r2, s2)" by (cases "read_response s1")
          note fr = read_response_frame[OF p]
          have "s' = s2 \<and> r \<noteq> Inr None"
            using Some enc w Inr True p assms
            by (cases r2) (auto simp: send_command_try_def)
          with ws d fr show ?thesis by simp
        qed
      qed
    qed
  qed
  from all show "writer s' = writer s" and "password s' = password s"
    and "wire s' = wire s \<or> wire s' = wire s @ [c @ crlf]"
    and "writer s \<noteq> None \<Longrightarrow> encode_ascii (c @ crlf) \<noteq> None \<Longrightarrow> wire s' = wire s @ [c @ crlf]"
    and "x \<Longrightarrow> r \<noteq> Inr None" by blast+
qed

lemma send_command_try_write_fails:
  assumes "writer s \<noteq> None" "write_results s (length (wire s)) \<noteq> WriteOk"
  shows "\<exists>e. fst (send_command_try c x s) = Inl e"
proof -
  from assms(1) obtain w where w: "writer s = Some w" by auto
  show ?thesis
  proof (cases "encode_ascii (c @ crlf)")
    case None
    with w show ?thesis by (simp add: send_command_try_def)
  next
    case (Some data)
    from assms(2) have "\<exists>e. fst (write_drain data s) = Inl e"
      by (cases "write_results s (length (wire s))") (simp_all add: write_drain_def Let_def)
    then obtain e where "fst (write_drain data s) = Inl e" by blast
    then obtain s1 where "write_drain data s = (Inl e, s1)" by (metis prod.collapse)
    with w Some show ?thesis by (simp add: send_command_try_def)
  qed
qed

lemma send_command_try_read_fails:
  assumes "writer s \<noteq> None" "encode_ascii (c @ crlf) \<noteq> None"
    "write_results s (length (wire s)) = WriteOk" "read_results s (reads s) = ReadError"
  shows "\<exists>e. fst (send_command_try c True s) = Inl e"
proof -
  from assms(1) obtain w where w: "writer s = Some w" by auto
  from assms(2) obtain data where d: "encode_ascii (c @ crlf) = Some data" by auto
  have wd: "write_drain data s = (Inr (), s\<lparr>wire := wire s @ [data]\<rparr>)"
    using assms(3) by (simp add: write_drain_def Let_def)
  have "\<exists>e t. read_until_prompt (s\<lparr>wire := wire s @ [data]\<rparr>) = (Inl e, t)"
    using assms(4) by (simp add: read_until_prompt_def)
  then obtain e t where "read_until_prompt (s\<lparr>wire := wire s @ [data]\<rparr>) = (Inl e, t)" by blast
  then have "read_response (s\<lparr>wire := wire s @ [data]\<rparr>) = (Inl e, t)"
    by (simp add: read_response_def)
  with w d wd show ?thesis by (simp add: send_command_try_def)
qed

lemma send_command_fails_connected:
  assumes "is_connected s" "send_command c x s = (Inl e, s')"
  shows "\<exists>s1. send_command_try c x s = (Inl e, s1) \<and> s' = s1\<lparr>connected := False\<rparr>"
proof -
  obtain r1 s1 where t: "send_command_try c x s = (r1, s1)" by (cases "send_command_try c x s")
  show ?thesis
  proof (cases r1)
    case (Inl e1)
    with t assms show ?thesis by (simp add: send_command_connected)
  next
    case (Inr v)
    with t assms show ?thesis by (simp add: send_command_connected)
  qed
qed

lemma send_command_reconnect_fails:
  assumes "\<not> is_connected s" "connect s = (Inl e, s1)"
  shows "send_command c x s = (Inl e, s1)"
  using assms by (simp add: send_command_def ensure_connected_disconnected)

lemma send_command_reconnect_ok:
  assumes "\<not> is_connected s" "connect s = (Inr (), s1)"
  shows "is_connected s1" and "send_command c x s = send_command c x s1"
proof -
  from connect_shape(1)[OF assms(2)] show c: "is_connected s1" by (simp add: is_connected_def)
  show "send_command c x s = send_command c x s1"
    using assms by (simp add: send_command_def ensure_connected_disconnected
        ensure_connected_connected[OF c])
qed

text \<open>
  Claim C7. On a connected session, a command that raises has failed in its write or its
  read, raises that same exception, and leaves \<^verbatim>\<open>is_connected\<close> false; a write that
  does not succeed makes the command raise, and so does a failing first read after a
  successful write. On a session that is not connected, the command first runs
  \<^verbatim>\<open>connect\<close>: when that raises, the command raises the same exception and leaves the
  state \<^verbatim>\<open>connect\<close> left, in which the wire holds at most the credential line in
  addition and never the command; when it returns, the session is connected and the
  command goes on as it does on that connected session.
\<close>

theorem send_command_failure_and_reconnect:
  "(\<forall>e s'. is_connected s \<and> send_command c x s = (Inl e, s') \<longrightarrow>
       \<not> is_connected s'
       \<and> (\<exists>s1. send_command_try c x s = (Inl e, s1) \<and> s' = s1\<lparr>connected := False\<rparr>))
   \<and> (is_connected s \<and> write_results s (length (wire s)) \<noteq> WriteOk \<longrightarrow>
        (\<exists>e. fst (send_command c x s) = Inl e))
   \<and> (is_connected s \<and> encode_ascii (c @ crlf) \<noteq> None
        \<and> write_results s (length (wire s)) = WriteOk \<and> read_results s (reads s) = ReadError \<longrightarrow>
        (\<exists>e. fst (send_command c True s) = Inl e))
   \<and> (\<forall>e s1. \<not> is_connected s \<and> connect s = (Inl e, s1) \<longrightarrow>
        send_command c x s = (Inl e, s1)
        \<and> (wire s1 = wire s
             \<or> (\<exists>pw. password s = Some pw \<and> pw \<noteq> [] \<and> wire s1 = wire s @ [pw @ crlf])))
   \<and> (\<forall>s1. \<not> is_connected s \<and> connect s = (Inr (), s1) \<longrightarrow>
        is_connected s1 \<and> send_command c x s = send_command c x s1)"
proof -
  have a: "\<forall>e s'. is_connected s \<and> send_command c x s = (Inl e, s') \<longrightarrow>
       \<not> is_connected s'
       \<and> (\<exists>s1. send_command_try c x s = (Inl e, s1) \<and> s' = s1\<lparr>connected := False\<rparr>)"
  proof (intro allI impI)
    fix e s' assume h: "is_connected s \<and> send_command c x s = (Inl e, s')"
    then obtain s1 where s1: "send_command_try c x s = (Inl e, s1)" "s' = s1\<lparr>connected := False\<rparr>"
      using send_command_fails_connected by blast
    then have "\<not> is_connected s'" by (simp add: is_connected_def)
    with s1 show "\<not> is_connected s'
       \<and> (\<exists>s1. send_command_try c x s = (Inl e, s1) \<and> s' = s1\<lparr>connected := False\<rparr>)" by blast
  qed
  have b: "is_connected s \<and> write_results s (length (wire s)) \<noteq> WriteOk \<longrightarrow>
        (\<exists>e. fst (send_command c x s) = Inl e)"
  proof
    assume h: "is_connected s \<and> write_results s (length (wire s)) \<noteq> WriteOk"
    then have "writer s \<noteq> None" by (simp add: is_connected_def)
    with h obtain e where "fst (send_command_try c x s) = Inl e"
      using send_command_try_write_fails by blast
    then obtain s1 where "send_command_try c x s = (Inl e, s1)" by (metis prod.collapse)
    with h have "fst (send_command c x s) = Inl e" by (simp add: send_command_connected)
    then show "\<exists>e. fst (send_command c x s) = Inl e" by blast
  qed
  have c: "is_connected s \<and> encode_ascii (c @ crlf) \<noteq> None
        \<and> write_results s (length (wire s)) = WriteOk \<and> read_results s (reads s) = ReadError \<longrightarrow>
        (\<exists>e. fst (send_command c True s) = Inl e)"
  proof
    assume h: "is_connected s \<and> encode_ascii (c @ crlf) \<noteq> None
        \<and> write_results s (length (wire s)) = WriteOk \<and> read_results s (reads s) = ReadError"
    then have "writer s \<noteq> None" by (simp add: is_connected_def)
    with h obtain e where "fst (send_command_try c True s) = Inl e"
      using send_command_try_read_fails by blast
    then obtain s1 where "send_command_try c True s = (Inl e, s1)" by (metis prod.collapse)
    with h have "fst (send_command c True s) = Inl e" by (simp add: send_command_connected)
    then show "\<exists>e. fst (send_command c True s) = Inl e" by blast
  qed
  have d: "\<forall>e s1. \<not> is_connected s \<and> connect s = (Inl e, s1) \<longrightarrow>
        send_command c x s = (Inl e, s1)
        \<and> (wire s1 = wire s
             \<or> (\<exists>pw. password s = Some pw \<and> pw \<noteq> [] \<and> wire s1 = wire s @ [pw @ crlf]))"
    using send_command_reconnect_fails connect_shape(2) by blast
  have e: "\<forall>s1. \<not> is_connected s \<and> connect s = (Inr (), s1) \<longrightarrow>
        is_connected s1 \<and> send_command c x s = send_command c x s1"
    using send_command_reconnect_ok by blast
  from a b c d e show ?thesis by blast
qed

theorem send_command_failure_and_reconnect_witness:
  "is_connected flaky_client
   \<and> fst (send_command ''1%'' True flaky_client) = Inl TransportError
   \<and> \<not> is_connected (snd (send_command ''1%'' True flaky_client))
   \<and> fst (connect (snd (send_command ''1%'' True flaky_client))) = Inr ()
   \<and> is_connected (snd (connect (snd (send_command ''1%'' True flaky_client))))
   \<and> fst (send_command ''1%'' True (snd (send_command ''1%'' True flaky_client)))
       = Inr (Some ''Out01 In05 All'')"
proof -
  let ?s' = "snd (send_command ''1%'' True flaky_client)"
  have c0: "is_connected flaky_client" by (simp add: is_connected_def flaky_client_def)
  have f: "fst (send_command ''1%'' True flaky_client) = Inl TransportError" by code_simp
  then have e: "send_command ''1%'' True flaky_client = (Inl TransportError, ?s')"
    by (metis prod.collapse)
  from send_command_failure_and_reconnect[of flaky_client "''1%''" True] c0 e
  have n: "\<not> is_connected ?s'" by blast
  have g: "fst (connect ?s') = Inr ()" by code_simp
  then have g': "connect ?s' = (Inr (), snd (connect ?s'))" by (metis prod.collapse)
  from send_command_failure_and_reconnect[of ?s' "''1%''" True] n g'
  have k: "is_connected (snd (connect ?s'))" by blast
  have r: "fst (send_command ''1%'' True ?s') = Inr (Some ''Out01 In05 All'')" by code_simp
  from c0 f n g k r show ?thesis by blast
qed

section \<open>Setting and polling ties\<close>

lemma digit_char_ascii: "d < 10 \<Longrightarrow> (of_char (digit_char d) :: nat) < 128"
proof -
  assume "d < 10"
  then have "digit_char d \<in> set ''0123456789''"
    unfolding digit_char_def by (intro nth_mem) simp
  then show ?thesis by auto
qed

lemma str_nat_ascii: "list_all (\<lambda>c. (of_char c :: nat) < 128) (str_nat n)"
proof (induction n rule: str_nat.induct)
  case (1 n)
  show ?case
  proof (cases "n < 10")
    case True
    then show ?thesis by (subst str_nat.simps) (simp add: digit_char_ascii)
  next
    case False
    with 1 show ?thesis by (subst str_nat.simps) (simp add: digit_char_ascii)
  qed
qed

lemma str_int_ascii: "list_all (\<lambda>c. (of_char c :: nat) < 128) (str_int i)"
  by (simp add: str_int_def str_nat_ascii)

lemma encode_ascii_Some: "list_all (\<lambda>c. (of_char c :: nat) < 128) t \<Longrightarrow> encode_ascii t = Some t"
  by (simp add: encode_ascii_def)

lemma tie_set_command_encodes:
  "encode_ascii ((str_int i @ ''*'' @ str_int j @ ''!'') @ crlf) \<noteq> None"
  by (simp add: encode_ascii_Some str_int_ascii crlf_def)

lemma send_command_connected_wire:
  assumes "is_connected s" "encode_ascii (c @ crlf) \<noteq> None"
  shows "wire (snd (send_command c x s)) = wire s @ [c @ crlf]"
proof -
  obtain r1 s1 where t: "send_command_try c x s = (r1, s1)" by (cases "send_command_try c x s")
  from assms(1) have w: "writer s \<noteq> None" by (simp add: is_connected_def)
  from send_command_try_shape(4)[OF t w assms(2)] have "wire s1 = wire s @ [c @ crlf]" .
  with t assms(1) show ?thesis by (cases r1) (simp_all add: send_command_connected)
qed

lemma send_command_expecting:
  "send_command c True s \<noteq> (Inr None, s')"
proof
  assume a: "send_command c True s = (Inr None, s')"
  obtain r0 s0 where e: "ensure_connected s = (r0, s0)" by (cases "ensure_connected s")
  show False
  proof (cases r0)
    case (Inl x)
    with e a show False by (simp add: send_command_def)
  next
    case (Inr u)
    obtain r1 s1 where t: "send_command_try c True s0 = (r1, s1)"
      by (cases "send_command_try c True s0")
    from send_command_try_shape(5)[OF t] have "r1 \<noteq> Inr None" by simp
    with e Inr t a show False by (cases r1) (simp_all add: send_command_def)
  qed
qed

text \<open>
  Claim C8. \<^verbatim>\<open>set_output_tie(0, output)\<close> returns \<^verbatim>\<open>False\<close> and changes nothing, the
  wire included. For a nonzero input it sends the command text
  \<^verbatim>\<open>{input_num}*{output}!\<close> with \<^verbatim>\<open>_send_command\<close>: an exception of the command is
  raised unchanged, a response text is answered by its acknowledgment check, and there
  is always a response text; on a connected session exactly that command line, with its
  terminator, is added to the wire.
\<close>

theorem set_output_tie_spec:
  "set_output_tie 0 output s = (Inr False, s)
   \<and> (input_num \<noteq> 0 \<longrightarrow>
        (\<forall>e s1. send_command (str_int input_num @ ''*'' @ str_int output @ ''!'') True s = (Inl e, s1)
           \<longrightarrow> set_output_tie input_num output s = (Inl e, s1))
      \<and> (\<forall>response s1.
            send_command (str_int input_num @ ''*'' @ str_int output @ ''!'') True s
              = (Inr (Some response), s1)
           \<longrightarrow> set_output_tie input_num output s = (Inr (set_ack response), s1))
      \<and> (\<forall>s1. send_command (str_int input_num @ ''*'' @ str_int output @ ''!'') True s
                 \<noteq> (Inr None, s1))
      \<and> (is_connected s \<longrightarrow>
            wire (snd (set_output_tie input_num output s))
              = wire s @ [(str_int input_num @ ''*'' @ str_int output @ ''!'') @ crlf]))"
proof -
  let ?c = "str_int input_num @ ''*'' @ str_int output @ ''!''"
  have z: "set_output_tie 0 output s = (Inr False, s)" by (simp add: set_output_tie_def)
  have a: "input_num \<noteq> 0 \<longrightarrow> (\<forall>e s1. send_command ?c True s = (Inl e, s1)
           \<longrightarrow> set_output_tie input_num output s = (Inl e, s1))"
    by (simp add: set_output_tie_def)
  have b: "input_num \<noteq> 0 \<longrightarrow> (\<forall>response s1. send_command ?c True s = (Inr (Some response), s1)
           \<longrightarrow> set_output_tie input_num output s = (Inr (set_ack response), s1))"
    by (simp add: set_output_tie_def)
  have c: "\<forall>s1. send_command ?c True s \<noteq> (Inr None, s1)"
    using send_command_expecting by blast
  have d: "input_num \<noteq> 0 \<longrightarrow> is_connected s \<longrightarrow>
            wire (snd (set_output_tie input_num output s)) = wire s @ [?c @ crlf]"
  proof (intro impI)
    assume nz: "input_num \<noteq> 0" and ic: "is_connected s"
    obtain r1 s1 where t: "send_command ?c True s = (r1, s1)" by (cases "send_command ?c True s")
    have "snd (set_output_tie input_num output s) = s1"
    proof (cases r1)
      case (Inl e)
      with t nz show ?thesis by (simp add: set_output_tie_def)
    next
      case (Inr v)
      with t nz show ?thesis by (cases v) (simp_all add: set_output_tie_def)
    qed
    moreover have "wire (snd (send_command ?c True s)) = wire s @ [?c @ crlf]"
      using ic tie_set_command_encodes by (rule send_command_connected_wire)
    ultimately show "wire (snd (set_output_tie input_num output s)) = wire s @ [?c @ crlf]"
      using t by simp
  qed
  from z a b c d show ?thesis by blast
qed

theorem set_output_tie_spec_witness:
  "set_output_tie 0 1 tied_client = (Inr False, tied_client)
   \<and> (5 :: int) \<noteq> 0 \<and> is_connected tied_client
   \<and> fst (set_output_tie 5 1 tied_client) = Inr True
   \<and> wire (snd (set_output_tie 5 1 tied_client)) = wire tied_client @ [''5*1!'' @ crlf]"
proof -
  have c: "is_connected tied_client" by (simp add: is_connected_def tied_client_def)
  have f: "fst (set_output_tie 5 1 tied_client) = Inr True" by code_simp
  have s: "str_int 5 @ ''*'' @ str_int 1 @ ''!'' = ''5*1!''" by code_simp
  from set_output_tie_spec[of 1 tied_client 5] c
  have "set_output_tie 0 1 tied_client = (Inr False, tied_client)"
    and "wire (snd (set_output_tie 5 1 tied_client))
           = wire tied_client @ [(str_int 5 @ ''*'' @ str_int 1 @ ''!'') @ crlf]" by simp_all
  with c f s show ?thesis by simp
qed

lemma ties_loop_append:
  "ties_loop (xs @ ys) ties s = ties_loop ys (fst (ties_loop xs ties s)) (snd (ties_loop xs ties s))"
proof (induction xs arbitrary: ties s)
  case Nil
  show ?case by simp
next
  case (Cons out rest)
  obtain r s1 where g: "get_output_tie out s = (r, s1)" by (cases "get_output_tie out s")
  show ?case using g Cons by (cases r) simp_all
qed

lemma ties_loop_single:
  "ties_loop [output] ties s =
     (AList.update output (case fst (get_output_tie output s) of Inr tied_input \<Rightarrow> tied_input | Inl err \<Rightarrow> 0) ties,
      snd (get_output_tie output s))"
proof -
  obtain r s1 where g: "get_output_tie output s = (r, s1)" by (cases "get_output_tie output s")
  show ?thesis using g by (cases r) simp_all
qed

lemma ties_loop_keys:
  "distinct outs \<Longrightarrow> set outs \<inter> set (map fst ties) = {} \<Longrightarrow>
     map fst (fst (ties_loop outs ties s)) = map fst ties @ outs"
proof (induction outs arbitrary: ties s)
  case Nil
  show ?case by simp
next
  case (Cons k rest)
  obtain r s1 where g: "get_output_tie k s = (r, s1)" by (cases "get_output_tie k s")
  define v where "v = (case r of Inr tied_input \<Rightarrow> tied_input | Inl err \<Rightarrow> (0::int))"
  have step: "ties_loop (k # rest) ties s = ties_loop rest (AList.update k v ties) s1"
    using g by (cases r) (simp_all add: v_def)
  have keys: "map fst (AList.update k v ties) = map fst ties @ [k]"
    using Cons.prems(2) by (simp add: update_keys)
  have "set rest \<inter> set (map fst (AList.update k v ties)) = {}"
    using Cons.prems unfolding keys by auto
  with Cons.IH[of "AList.update k v ties" s1] Cons.prems(1)
  have "map fst (fst (ties_loop rest (AList.update k v ties) s1))
          = map fst (AList.update k v ties) @ rest" by simp
  then show ?case unfolding step keys by simp
qed

lemma ties_loop_other:
  "output \<notin> set outs \<Longrightarrow> map_of (fst (ties_loop outs ties s)) output = map_of ties output"
proof (induction outs arbitrary: ties s)
  case Nil
  show ?case by simp
next
  case (Cons o' rest)
  obtain r s1 where g: "get_output_tie o' s = (r, s1)" by (cases "get_output_tie o' s")
  define v where "v = (case r of Inr tied_input \<Rightarrow> tied_input | Inl err \<Rightarrow> (0::int))"
  have step: "ties_loop (o' # rest) ties s = ties_loop rest (AList.update o' v ties) s1"
    using g by (cases r) (simp_all add: v_def)
  from Cons.prems have "output \<noteq> o'" "output \<notin> set rest" by auto
  with Cons.IH[of "AList.update o' v ties" s1] show ?case
    unfolding step by (simp add: update_conv')
qed

text \<open>
  Claim C1. The mapping \<^verbatim>\<open>get_all_ties(num_outputs)\<close> returns has the keys
  \<open>1, \<dots>, num_outputs\<close>, each once and in ascending order. The entry of an output is
  the result of \<^verbatim>\<open>get_output_tie\<close> for that output, run in the state the queries of
  all the smaller outputs have left, and 0 when that call raised; the final state is the
  one the last query left. So a failure neither ends the loop nor skips an output. For
  \<open>num_outputs < 1\<close> nothing is queried and the mapping is empty.
\<close>

theorem get_all_ties_spec:
  "map fst (fst (get_all_ties num_outputs s)) = [1..num_outputs]
   \<and> (\<forall>output \<in> {1..num_outputs}.
         map_of (fst (get_all_ties num_outputs s)) output
           = Some (case fst (get_output_tie output (snd (get_all_ties (output - 1) s))) of
                     Inr tied_input \<Rightarrow> tied_input
                   | Inl err \<Rightarrow> 0))
   \<and> (1 \<le> num_outputs \<longrightarrow>
         snd (get_all_ties num_outputs s)
           = snd (get_output_tie num_outputs (snd (get_all_ties (num_outputs - 1) s))))
   \<and> (num_outputs < 1 \<longrightarrow> get_all_ties num_outputs s = ([], s))"
proof -
  have a: "map fst (fst (get_all_ties num_outputs s)) = [1..num_outputs]"
    using ties_loop_keys[of "[1..num_outputs]" "[]" s] by (simp add: get_all_ties_def)
  have b: "\<forall>output \<in> {1..num_outputs}.
         map_of (fst (get_all_ties num_outputs s)) output
           = Some (case fst (get_output_tie output (snd (get_all_ties (output - 1) s))) of
                     Inr tied_input \<Rightarrow> tied_input
                   | Inl err \<Rightarrow> 0)"
  proof
    fix k assume "k \<in> {1..num_outputs}"
    then have r: "1 \<le> k" "k \<le> num_outputs" by simp_all
    define t1 where "t1 = fst (get_all_ties (k - 1) s)"
    define s1 where "s1 = snd (get_all_ties (k - 1) s)"
    define v where "v = (case fst (get_output_tie k s1) of Inr tied_input \<Rightarrow> tied_input | Inl err \<Rightarrow> (0::int))"
    have sp: "[1..num_outputs] = [1..k - 1] @ [k] @ [k + 1..num_outputs]"
      using upto_split3[OF r] by simp
    have "get_all_ties num_outputs s
            = ties_loop [k + 1..num_outputs] (AList.update k v t1) (snd (get_output_tie k s1))"
      unfolding get_all_ties_def sp ties_loop_append ties_loop_single
      by (simp add: t1_def s1_def v_def get_all_ties_def)
    moreover have "k \<notin> set [k + 1..num_outputs]" by simp
    ultimately have "map_of (fst (get_all_ties num_outputs s)) k
                       = map_of (AList.update k v t1) k"
      by (simp add: ties_loop_other)
    also have "\<dots> = Some v" by (simp add: update_conv')
    finally show "map_of (fst (get_all_ties num_outputs s)) k
           = Some (case fst (get_output_tie k (snd (get_all_ties (k - 1) s))) of
                     Inr tied_input \<Rightarrow> tied_input
                   | Inl err \<Rightarrow> 0)"
      by (simp add: v_def s1_def)
  qed
  have c: "1 \<le> num_outputs \<longrightarrow>
         snd (get_all_ties num_outputs s)
           = snd (get_output_tie num_outputs (snd (get_all_ties (num_outputs - 1) s)))"
  proof
    assume "1 \<le> num_outputs"
    then have sp: "[1..num_outputs] = [1..num_outputs - 1] @ [num_outputs]" by (rule upto_rec2)
    show "snd (get_all_ties num_outputs s)
           = snd (get_output_tie num_outputs (snd (get_all_ties (num_outputs - 1) s)))"
      unfolding get_all_ties_def sp ties_loop_append ties_loop_single by simp
  qed
  have d: "num_outputs < 1 \<longrightarrow> get_all_ties num_outputs s = ([], s)"
    by (simp add: get_all_ties_def)
  from a b c d show ?thesis by blast
qed

theorem get_all_ties_spec_witness:
  "(2 :: int) \<in> {1..2}
   \<and> fst (get_output_tie 1 flaky_client) = Inl TransportError
   \<and> map fst (fst (get_all_ties 2 flaky_client)) = [1, 2]
   \<and> map_of (fst (get_all_ties 2 flaky_client)) 1 = Some 0
   \<and> map_of (fst (get_all_ties 2 flaky_client)) 2 = Some 5"
proof -
  have m: "(1 :: int) \<in> {1..2}" "(2 :: int) \<in> {1..2}" by simp_all
  have u: "[1..2::int] = [1, 2]" by code_simp
  have f: "fst (get_output_tie 1 flaky_client) = Inl TransportError" by code_simp
  have e1: "(case fst (get_output_tie 1 (snd (get_all_ties (1 - 1) flaky_client))) of
               Inr tied_input \<Rightarrow> tied_input | Inl err \<Rightarrow> 0) = 0" by code_simp
  have e2: "(case fst (get_output_tie 2 (snd (get_all_ties (2 - 1) flaky_client))) of
               Inr tied_input \<Rightarrow> tied_input | Inl err \<Rightarrow> 0) = 5" by code_simp
  from get_all_ties_spec[of 2 flaky_client] m u e1 e2
  have "map fst (fst (get_all_ties 2 flaky_client)) = [1, 2]"
    and "map_of (fst (get_all_ties 2 flaky_client)) 1 = Some 0"
    and "map_of (fst (get_all_ties 2 flaky_client)) 2 = Some 5" by auto
  with m f show ?thesis by blast
qed

section \<open>A tie line beyond the limit on digits\<close>

lemma contains_single: "contains s [c] \<longleftrightarrow> c \<in> set s"
  unfolding contains_iff by (auto simp: in_set_conv_decomp)

lemma send_command_connected_reply:
  assumes "is_connected s" "reader s \<noteq> None" "encode_ascii (c @ crlf) \<noteq> None"
    and "write_results s (length (wire s)) = WriteOk"
    and "read_results s (reads s) = ReadData bs"
    and "\<not> looks_like_timestamp (strip (decode_ascii_ignore bs))"
  shows "fst (send_command c True s) = Inr (Some (strip (decode_ascii_ignore bs)))"
proof -
  from assms(1) obtain w where w: "writer s = Some w" by (auto simp: is_connected_def)
  from assms(3) obtain data where d: "encode_ascii (c @ crlf) = Some data" by auto
  let ?s1 = "s\<lparr>wire := wire s @ [data]\<rparr>"
  let ?s2 = "?s1\<lparr>reads := Suc (reads s)\<rparr>"
  let ?t = "strip (decode_ascii_ignore bs)"
  have wd: "write_drain data s = (Inr (), ?s1)"
    using assms(4) by (simp add: write_drain_def Let_def)
  have rp: "read_until_prompt ?s1 = (Inr ?t, ?s2)"
    using assms(2,5) by (simp add: read_until_prompt_def)
  have rl: "read_loop ?t 0 ?s2 = (Inr ?t, ?s2)"
    using assms(6) by (simp add: read_loop_stop)
  have rr: "read_response ?s1 = (Inr ?t, ?s2)"
    using rp rl by (simp add: read_response_def)
  have "send_command_try c True s = (Inr (Some ?t), ?s2)"
    using w d wd rr by (simp add: send_command_try_def)
  with assms(1) show ?thesis by (simp add: send_command_connected)
qed

lemma long_line_text:
  "strip (decode_ascii_ignore ((''Out01 In'' @ replicate n (CHR ''7'') @ '' All'') @ crlf))
     = ''Out01 In'' @ replicate n (CHR ''7'') @ '' All''"
  by (simp add: strip_def decode_ascii_ignore_def str_isspace_def crlf_def)

lemma long_line_token:
  assumes "0 < n"
  shows "re_search_In (''Out01 In'' @ replicate n (CHR ''7'') @ '' All'') = Some (replicate n (CHR ''7''))"
proof -
  have nt: "\<not> has_token ''Out01 ''"
    using re_search_In_None_iff[of "''Out01 ''"] by (simp add: is_digit_def)
  have "re_search_In (''Out01 '' @ CHR ''I'' # CHR ''n'' # replicate n (CHR ''7'') @ '' All'')
          = Some (replicate n (CHR ''7''))"
    using assms nt by (intro re_search_In_leftmost) (simp_all add: is_digit_def)
  then show ?thesis by simp
qed

lemma long_line_no_timestamp:
  "\<not> looks_like_timestamp (''Out01 In'' @ replicate n (CHR ''7'') @ '' All'')"
  by (simp add: looks_like_timestamp_def contains_single del: contains.simps)

text \<open>
  Claim C4 at a tie line whose token has 4301 digits. The line reaches
  \<^verbatim>\<open>get_output_tie\<close> unchanged as the response of its command, the leftmost
  \<^verbatim>\<open>In<digits>\<close> token is the run of 4301 digits, and its conversion on line 183, outside
  the \<^verbatim>\<open>try\<close>, raises \<^verbatim>\<open>ValueError\<close>: \<^verbatim>\<open>get_output_tie\<close> raises where the claim has it
  return the integer of the token.
\<close>

theorem get_output_tie_long_token:
  "fst (send_command (str_int 1 @ ''%'') True long_token_client)
     = Inr (Some (''Out01 In'' @ replicate 4301 (CHR ''7'') @ '' All''))
   \<and> re_search_In (''Out01 In'' @ replicate 4301 (CHR ''7'') @ '' All'')
       = Some (replicate 4301 (CHR ''7''))
   \<and> tie_of_response (''Out01 In'' @ replicate 4301 (CHR ''7'') @ '' All'') = Inl ValueError
   \<and> fst (get_output_tie 1 long_token_client) = Inl ValueError"
proof -
  let ?line = "''Out01 In'' @ replicate 4301 (CHR ''7'') @ '' All''"
  have enc: "encode_ascii ((str_int 1 @ ''%'') @ crlf) \<noteq> None"
    by (simp add: encode_ascii_Some str_int_ascii crlf_def)
  have ic: "is_connected long_token_client" and rd: "reader long_token_client \<noteq> None"
    and wr: "write_results long_token_client (length (wire long_token_client)) = WriteOk"
    by (simp_all add: long_token_client_def is_connected_def)
  have rr: "read_results long_token_client (reads long_token_client) = ReadData (?line @ crlf)"
    by (simp add: long_token_client_def)
  have nt: "\<not> looks_like_timestamp (strip (decode_ascii_ignore (?line @ crlf)))"
    by (simp only: long_line_text long_line_no_timestamp not_False_eq_True)
  have a: "fst (send_command (str_int 1 @ ''%'') True long_token_client) = Inr (Some ?line)"
    using send_command_connected_reply[OF ic rd enc wr rr nt] by (simp only: long_line_text)
  have b: "re_search_In ?line = Some (replicate 4301 (CHR ''7''))"
    by (rule long_line_token) simp
  have c: "tie_of_response ?line = Inl ValueError"
    using tie_of_response_token[OF b] by simp
  obtain s1 where s1: "send_command (str_int 1 @ ''%'') True long_token_client = (Inr (Some ?line), s1)"
    using a by (metis prod.collapse)
  have d: "fst (get_output_tie 1 long_token_client) = Inl ValueError"
    unfolding get_output_tie_def s1 using c by simp
  from a b c d show ?thesis by blast
qed

end
